theory Spec2Isabelle
  imports Main "HOL-Library.Word"
begin

unbundle bit_operations_syntax

section \<open>Host values\<close>

text \<open>
  The containers of byte-flags are the TypeScript classes \<open>BaseFlags\<close> (the shared
  logic) and its three subclasses \<open>ByteFlags\<close>, \<open>ShortFlags\<close> and \<open>LongFlags\<close>,
  which only fix the capacity and the largest value, and name the conversions
  (\<open>toByte\<close>/\<open>fromByte\<close> and so on). This theory embeds \<open>BaseFlags\<close> and the
  three classes that extend it, as \<open>index.ts\<close> exports them. (The repository
  also keeps two earlier revisions of \<open>ByteFlags\<close>, written before \<open>BaseFlags\<close>
  was factored out; they are not embedded.)

  The host's values come first: strings, numbers, the bitwise operators, plain
  objects and JSON texts, each as far as the container uses it.

  A JavaScript string is a sequence of UTF-16 code units. Flag names are compared
  by the host with exact code-unit equality (\<open>Array.prototype.includes\<close>,
  \<open>Map.prototype.has\<close>, property keys), which is equality of lists here.
\<close>

type_synonym js_string = "16 word list"

text \<open>An ASCII literal as a JavaScript string.\<close>

definition lit :: "string \<Rightarrow> js_string" where
  "lit s = map (\<lambda>c. of_nat (of_char c)) s"

text \<open>
  \<open>String.prototype.trim\<close> removes leading and trailing code units that are
  ECMAScript WhiteSpace or LineTerminator: TAB, LF, VT, FF, CR, SP, NBSP, the
  Unicode space separators, LS, PS and the byte order mark.
\<close>

definition is_white_space :: "16 word \<Rightarrow> bool" where
  "is_white_space c \<longleftrightarrow>
     c \<in> set [0x0009, 0x000A, 0x000B, 0x000C, 0x000D, 0x0020, 0x00A0, 0x1680,
               0x2000, 0x2001, 0x2002, 0x2003, 0x2004, 0x2005, 0x2006, 0x2007,
               0x2008, 0x2009, 0x200A, 0x2028, 0x2029, 0x202F, 0x205F, 0x3000,
               0xFEFF]"

definition trim :: "js_string \<Rightarrow> js_string" where
  "trim s = rev (dropWhile is_white_space (rev (dropWhile is_white_space s)))"

text \<open>
  The constructor is typed \<open>...flagNames: string[]\<close>, but \<open>addFlag\<close> tests
  \<open>typeof name !== "string"\<close> at run time, so an argument is either a string or
  some other value.
\<close>

datatype js_value = JString js_string | JOther

text \<open>
  \<open>fromValue(v: number)\<close> first asks \<open>Number.isInteger(v)\<close>: a number is an
  integer, or it is not one (a fraction, NaN or an infinity).
\<close>

datatype js_number = Integer int | NonInteger

text \<open>
  What reading one of the fields \<open>MAX_FLAGS\<close> and \<open>MAX_VALUE\<close> can give:
  \<open>undefined\<close> (before the subclass has initialised it), a number, or a boolean
  (when a flag's accessor stands in the field's place, see below). In a
  comparison the host converts with ToNumber: \<open>undefined\<close> becomes NaN (\<open>None\<close>
  here), with which every comparison is false; \<open>false\<close> and \<open>true\<close> become 0
  and 1.
\<close>

datatype js_prim = Undefined | Number int | Boolean bool

fun ToNumber :: "js_prim \<Rightarrow> int option" where
  "ToNumber Undefined = None"
| "ToNumber (Number n) = Some n"
| "ToNumber (Boolean b) = Some (if b then 1 else 0)"

text \<open>
  The bitwise operators convert their operands with ToInt32 (reduction modulo
  \<open>2 ^ 32\<close>), work on 32 bits, and give a signed 32-bit result; a shift count is
  taken modulo 32.
\<close>

definition js_shl :: "int \<Rightarrow> nat \<Rightarrow> int" where
  "js_shl a n = sint (push_bit (n mod 32) (word_of_int a :: 32 word))"

definition js_or :: "int \<Rightarrow> int \<Rightarrow> int" where
  "js_or a b = sint ((word_of_int a :: 32 word) OR word_of_int b)"

definition js_and :: "int \<Rightarrow> int \<Rightarrow> int" where
  "js_and a b = sint ((word_of_int a :: 32 word) AND word_of_int b)"

definition js_not :: "int \<Rightarrow> int" where
  "js_not a = sint (NOT (word_of_int a :: 32 word))"

text \<open>
  A plain object \<open>Record<string, boolean>\<close> is the list of its own properties in
  order of creation, with pairwise different keys. \<open>obj_define\<close> is
  CreateDataProperty, by which \<open>JSON.parse\<close> builds its result: it overwrites the
  value of an existing own property in place and appends a new one.

  \<open>obj_set\<close> is the assignment \<open>obj[k] = v\<close> to an object whose prototype is
  \<open>Object.prototype\<close>. It does the same, with one exception: for the key
  \<open>__proto__\<close>, unless the object has an own property of that name, the
  assignment runs the setter that \<open>Object.prototype\<close> has under this name, which
  ignores a boolean and creates no property.
\<close>

type_synonym js_object = "(js_string \<times> bool) list"

fun obj_define :: "js_object \<Rightarrow> js_string \<Rightarrow> bool \<Rightarrow> js_object" where
  "obj_define [] k v = [(k, v)]"
| "obj_define (p # ps) k v = (if fst p = k then (k, v) # ps else p # obj_define ps k v)"

definition obj_set :: "js_object \<Rightarrow> js_string \<Rightarrow> bool \<Rightarrow> js_object" where
  "obj_set obj k v =
     (if k = lit ''__proto__'' \<and> k \<notin> fst ` set obj then obj else obj_define obj k v)"

text \<open>
  \<open>Object.keys\<close>, \<open>Object.entries\<close> and \<open>JSON.stringify\<close> enumerate own
  properties in the order of OrdinaryOwnPropertyKeys: first the keys that are
  array indices (canonical decimal numerals below \<open>2 ^ 32 - 1\<close>) in ascending
  numeric order, then all other keys in order of creation.
\<close>

definition is_digit :: "16 word \<Rightarrow> bool" where
  "is_digit c \<longleftrightarrow> 0x30 \<le> c \<and> c \<le> 0x39"

definition decimal_value :: "js_string \<Rightarrow> nat" where
  "decimal_value k = foldl (\<lambda>a c. 10 * a + (unat c - 48)) 0 k"

definition is_array_index :: "js_string \<Rightarrow> bool" where
  "is_array_index k \<longleftrightarrow>
     k \<noteq> [] \<and> list_all is_digit k \<and> (hd k \<noteq> 0x30 \<or> k = [0x30]) \<and>
     decimal_value k < 2 ^ 32 - 1"

definition Object_entries :: "js_object \<Rightarrow> (js_string \<times> bool) list" where
  "Object_entries obj =
     sort_key (\<lambda>p. decimal_value (fst p)) (filter (\<lambda>p. is_array_index (fst p)) obj) @
     filter (\<lambda>p. \<not> is_array_index (fst p)) obj"

definition Object_keys :: "js_object \<Rightarrow> js_string list" where
  "Object_keys obj = map fst (Object_entries obj)"

text \<open>
  A JSON text is represented by what it spells: the members of a flat object of
  booleans (the shape \<open>toJSON\<close> writes), in the order of the text, or no valid
  JSON at all. Valid texts of other shapes are outside this embedding.
  \<open>JSON.stringify\<close> writes the own properties in enumeration order;
  \<open>JSON.parse\<close> creates the properties in the order of the text (a repeated key
  keeps its place and takes the later value).
\<close>

datatype json_text = Json_members "(js_string \<times> bool) list" | Json_malformed

definition JSON_stringify :: "js_object \<Rightarrow> json_text" where
  "JSON_stringify obj = Json_members (Object_entries obj)"

section \<open>Errors\<close>

text \<open>
  One constructor for each \<open>throw new Error(...)\<close> of the source, by its message,
  and one for each kind of error that the host itself throws while the
  container's code runs: \<open>SyntaxError\<close> from \<open>JSON.parse\<close>; \<open>TypeError\<close> when
  a value that is not a function is called, or a property that is not
  configurable is defined again; \<open>RangeError\<close> when the call stack is exhausted
  by a recursion without end.
\<close>

datatype error =
    NoFlagNames                  \<comment> \<open>At least one flag name must be provided\<close>
  | TooManyFlags nat             \<comment> \<open>Cannot have more than N flags\<close>
  | CannotAddMore js_prim        \<comment> \<open>Cannot add more than MAX_FLAGS flags\<close>
  | EmptyFlagName                \<comment> \<open>Flag name must be a non-empty string\<close>
  | DuplicateFlag js_string      \<comment> \<open>Duplicate flag: NAME\<close>
  | FlagDoesNotExist js_string   \<comment> \<open>Flag 'NAME' does not exist\<close>
  | ValueNotInRange js_prim      \<comment> \<open>Value must be integer 0-MAX_VALUE\<close>
  | JSONSyntaxError              \<comment> \<open>thrown by JSON.parse\<close>
  | TypeError                    \<comment> \<open>thrown by the host\<close>
  | RangeError                   \<comment> \<open>thrown by the host: Maximum call stack size exceeded\<close>

fun JSON_parse :: "json_text \<Rightarrow> error + js_object" where
  "JSON_parse Json_malformed = Inl JSONSyntaxError"
| "JSON_parse (Json_members ms) = Inr (foldl (\<lambda>obj (k, v). obj_define obj k v) [] ms)"

text \<open>
  The specification names three abstract kinds of error; the source throws plain
  \<open>Error\<close> objects that differ by message only.
\<close>

datatype error_kind = InvalidArgument | DuplicateName | UnknownFlag

text \<open>
  Modelled from the spec: the classification of the thrown errors into the kinds
  of its section 7 (the source has no such classification). The two errors of
  the host that section 7 does not mention have no kind.
\<close>

fun kind :: "error \<Rightarrow> error_kind option" where
  "kind NoFlagNames = Some InvalidArgument"
| "kind (TooManyFlags n) = Some InvalidArgument"
| "kind (CannotAddMore m) = Some InvalidArgument"
| "kind EmptyFlagName = Some InvalidArgument"
| "kind (DuplicateFlag n) = Some DuplicateName"
| "kind (FlagDoesNotExist n) = Some UnknownFlag"
| "kind (ValueNotInRange m) = Some InvalidArgument"
| "kind JSONSyntaxError = Some InvalidArgument"
| "kind TypeError = None"
| "kind RangeError = None"

section \<open>The container\<close>

text \<open>
  An instance has the four fields that \<open>BaseFlags\<close> initialises, the two fields
  \<open>MAX_FLAGS\<close> and \<open>MAX_VALUE\<close> that the subclass initialises after
  \<open>super(...)\<close> has returned (until then they are \<open>undefined\<close>, \<open>None\<close> here),
  and the accessor properties that \<open>addFlag\<close> defines on it with
  \<open>Object.defineProperty(this, name, { get: () => this.getBit(idx),
  set: (value) => this.setBit(idx, value), configurable: false })\<close>, one under
  each flag name: \<open>accessors\<close> maps the name to the \<open>idx\<close> that its two
  functions have captured.

  An accessor defined under the name of a field takes the field's place (the
  fields are configurable data properties), and one defined under the name of a
  method of the class hides the method, which the instance only inherits. From
  then on \<open>this.name\<close> reads through the getter and \<open>this.name = v\<close> writes
  through the setter, wherever the container's own code says so. The record
  keeps the last content of a replaced field; nothing reads it any more.
\<close>

record flags =
  "value" :: int
  nextIndex :: nat
  flagList :: "js_string list"
  flagIndices :: "js_string \<rightharpoonup> nat"
  MAX_FLAGS :: "nat option"
  MAX_VALUE :: "int option"
  accessors :: "js_string \<rightharpoonup> nat"

text \<open>A mutator leaves the instance in some state whether or not it throws.\<close>

type_synonym outcome = "error option \<times> flags"

subsection \<open>Bits and members\<close>

text \<open>
  Every function below that is named after a method is a call \<open>this.m(...)\<close> of
  that method on the instance, the look-up of \<open>m\<close> included.

  \<open>this.getBit(position)\<close> evaluates \<open>Boolean(this.value & (1 << position))\<close>.
  When \<open>value\<close> is an accessor, reading \<open>this.value\<close> calls its getter, which
  calls \<open>this.getBit\<close>, which reads \<open>this.value\<close>, without end; when \<open>getBit\<close>
  is an accessor, reading \<open>this.getBit\<close> calls its getter, which reads
  \<open>this.getBit\<close>, without end. Either way the host throws \<open>RangeError\<close>.
\<close>

definition getBit :: "flags \<Rightarrow> nat \<Rightarrow> error + bool" where
  "getBit s position =
     (case accessors s (lit ''getBit'') of
        Some idx \<Rightarrow> Inl RangeError
      | None \<Rightarrow>
          (case accessors s (lit ''value'') of
             Some idx \<Rightarrow> Inl RangeError
           | None \<Rightarrow> Inr (js_and (value s) (js_shl 1 position) \<noteq> 0)))"

text \<open>
  \<open>shadowed s m\<close> is what using the member \<open>m\<close> as the code does throws, if
  anything: \<open>this.m(...)\<close> for a method \<open>m\<close> of the class, or \<open>this.m.f(...)\<close> and
  \<open>[...this.m]\<close> for one of the fields \<open>flagList\<close> and \<open>flagIndices\<close>. When the
  instance has an accessor under the name \<open>m\<close>, the read \<open>this.m\<close> runs the
  getter \<open>this.getBit(idx)\<close>; if that returns, \<open>this.m\<close> is a boolean, which is
  not a function, has no method \<open>f\<close> and is not iterable: \<open>TypeError\<close>.
\<close>

definition shadowed :: "flags \<Rightarrow> string \<Rightarrow> error option" where
  "shadowed s m =
     (case accessors s (lit m) of
        None \<Rightarrow> None
      | Some idx \<Rightarrow> (case getBit s idx of Inl e \<Rightarrow> Some e | Inr b \<Rightarrow> Some TypeError))"

text \<open>
  \<open>this.setBit(position, value)\<close>: \<open>this.value |= 1 << position\<close> if \<open>value\<close> is
  truthy, \<open>this.value &= ~(1 << position)\<close> otherwise. Both read \<open>this.value\<close>
  first.
\<close>

definition setBit :: "nat \<Rightarrow> bool \<Rightarrow> flags \<Rightarrow> outcome" where
  "setBit position v s =
     (case shadowed s ''setBit'' of
        Some e \<Rightarrow> (Some e, s)
      | None \<Rightarrow>
          (case accessors s (lit ''value'') of
             Some idx \<Rightarrow> (Some RangeError, s)
           | None \<Rightarrow>
               if v then (None, s\<lparr>value := js_or (value s) (js_shl 1 position)\<rparr>)
               else (None, s\<lparr>value := js_and (value s) (js_not (js_shl 1 position))\<rparr>)))"

text \<open>
  Reading a field that an accessor may have replaced: the content of the field,
  or the boolean that the getter returns. \<open>this_nextIndex\<close> is
  \<open>this.nextIndex\<close> as a number: the code uses it in \<open>>=\<close>, \<open>++\<close> and \<open><\<close>
  only, which convert \<open>false\<close> and \<open>true\<close> to 0 and 1.
\<close>

definition read_field :: "flags \<Rightarrow> string \<Rightarrow> js_prim \<Rightarrow> error + js_prim" where
  "read_field s f content =
     (case accessors s (lit f) of
        None \<Rightarrow> Inr content
      | Some idx \<Rightarrow> (case getBit s idx of Inl e \<Rightarrow> Inl e | Inr b \<Rightarrow> Inr (Boolean b)))"

definition this_nextIndex :: "flags \<Rightarrow> error + nat" where
  "this_nextIndex s =
     (case accessors s (lit ''nextIndex'') of
        None \<Rightarrow> Inr (nextIndex s)
      | Some idx \<Rightarrow>
          (case getBit s idx of Inl e \<Rightarrow> Inl e | Inr b \<Rightarrow> Inr (if b then 1 else 0)))"

definition this_MAX_FLAGS :: "flags \<Rightarrow> error + js_prim" where
  "this_MAX_FLAGS s =
     read_field s ''MAX_FLAGS''
       (case MAX_FLAGS s of None \<Rightarrow> Undefined | Some m \<Rightarrow> Number (int m))"

definition this_MAX_VALUE :: "flags \<Rightarrow> error + js_prim" where
  "this_MAX_VALUE s =
     read_field s ''MAX_VALUE''
       (case MAX_VALUE s of None \<Rightarrow> Undefined | Some m \<Rightarrow> Number m)"

text \<open>
  \<open>this.value\<close> where the code reads the whole number (\<open>any\<close>, \<open>none\<close>,
  \<open>toValue\<close>): the getter of an accessor \<open>value\<close> never returns, as said above.
\<close>

definition this_value :: "flags \<Rightarrow> error + int" where
  "this_value s =
     (case accessors s (lit ''value'') of None \<Rightarrow> Inr (value s) | Some idx \<Rightarrow> Inl RangeError)"

text \<open>
  The assignment \<open>this.f = v\<close> to a field \<open>f\<close>: it writes the field (the last
  argument is the instance with the field written), unless an accessor has
  replaced it, whose setter is \<open>this.setBit(idx, v)\<close>; \<open>truthy\<close> says whether
  \<open>v\<close> is truthy.
\<close>

definition assign_field :: "flags \<Rightarrow> string \<Rightarrow> bool \<Rightarrow> flags \<Rightarrow> outcome" where
  "assign_field s f truthy written =
     (case accessors s (lit f) of
        None \<Rightarrow> (None, written)
      | Some idx \<Rightarrow> setBit idx truthy s)"

subsection \<open>Construction\<close>

text \<open>
  \<open>this.addFlag(name)\<close>, statement by statement. \<open>this.nextIndex >=
  this.MAX_FLAGS\<close> is false when \<open>MAX_FLAGS\<close> is \<open>undefined\<close>. In
  \<open>const idx = this.nextIndex++\<close> the number read is the same as in the first
  statement (nothing has changed in between); \<open>idx\<close> is that number and the
  number written is \<open>idx + 1\<close>, which is truthy. The last statement is
  \<open>Object.defineProperty\<close>: it cannot fail, because the name is not among the
  accessors defined before (it is not in \<open>flagList\<close>) and the fields are
  configurable.
\<close>

definition addFlag :: "js_value \<Rightarrow> flags \<Rightarrow> error + flags" where
  "addFlag name s =
     (case shadowed s ''addFlag'' of Some e \<Rightarrow> Inl e | None \<Rightarrow>
      case this_nextIndex s of Inl e \<Rightarrow> Inl e | Inr old \<Rightarrow>
      case this_MAX_FLAGS s of Inl e \<Rightarrow> Inl e | Inr m \<Rightarrow>
        if (case ToNumber m of None \<Rightarrow> False | Some k \<Rightarrow> int old \<ge> k)
        then Inl (CannotAddMore m)
        else case name of
          JOther \<Rightarrow> Inl EmptyFlagName
        | JString n \<Rightarrow>
            if trim n = [] then Inl EmptyFlagName
            else case shadowed s ''flagList'' of Some e \<Rightarrow> Inl e | None \<Rightarrow>
              if n \<in> set (flagList s) then Inl (DuplicateFlag n)
              else let idx = old in
                case assign_field s ''nextIndex'' True (s\<lparr>nextIndex := idx + 1\<rparr>) of
                  (Some e, s1) \<Rightarrow> Inl e
                | (None, s1) \<Rightarrow>
                    let s2 = s1\<lparr>flagList := flagList s1 @ [n]\<rparr> in
                    case shadowed s2 ''flagIndices'' of Some e \<Rightarrow> Inl e | None \<Rightarrow>
                      Inr (s2\<lparr>flagIndices := (flagIndices s2)(n \<mapsto> idx),
                              accessors := (accessors s2)(n \<mapsto> idx)\<rparr>))"

text \<open>\<open>for (const name of flagNames) this.addFlag(name)\<close>\<close>

fun addFlags :: "js_value list \<Rightarrow> flags \<Rightarrow> error + flags" where
  "addFlags [] s = Inr s"
| "addFlags (name # names) s =
     (case addFlag name s of Inl e \<Rightarrow> Inl e | Inr s' \<Rightarrow> addFlags names s')"

definition BaseFlags_fields :: flags where
  "BaseFlags_fields =
     \<lparr>value = 0, nextIndex = 0, flagList = [], flagIndices = Map.empty,
      MAX_FLAGS = None, MAX_VALUE = None, accessors = Map.empty\<rparr>"

definition BaseFlags_constructor :: "js_value list \<Rightarrow> error + flags" where
  "BaseFlags_constructor flagNames =
     (if length flagNames = 0 then Inl NoFlagNames
      else addFlags flagNames BaseFlags_fields)"

text \<open>
  The three subclasses. Their constructors are the same text up to the two static
  constants: the length check, \<open>super(...flagNames)\<close>, then the field
  initialisers of \<open>MAX_FLAGS\<close> and \<open>MAX_VALUE\<close>.
\<close>

datatype flags_class = ByteFlags | ShortFlags | LongFlags

fun static_MAX_FLAGS :: "flags_class \<Rightarrow> nat" where
  "static_MAX_FLAGS ByteFlags = 8"
| "static_MAX_FLAGS ShortFlags = 16"
| "static_MAX_FLAGS LongFlags = 32"

fun static_MAX_VALUE :: "flags_class \<Rightarrow> int" where
  "static_MAX_VALUE ByteFlags = 0xff"
| "static_MAX_VALUE ShortFlags = 0xffff"
| "static_MAX_VALUE LongFlags = 0xffffffff"

text \<open>
  What a field initialiser \<open>f = c\<close> of the subclass does when \<open>addFlag\<close> has
  already defined an accessor \<open>f\<close> depends on how the TypeScript compiler is
  told to emit class fields (its option \<open>useDefineForClassFields\<close>, set in the
  repository's \<open>tsconfig.json\<close>, which is not among the sources here; hence a
  parameter). With it, the field is defined, which \<open>TypeError\<close> refuses for a
  property that is not configurable; without it, the field is assigned, and the
  assignment runs the accessor's setter. The constants assigned are truthy.
\<close>

definition init_field :: "bool \<Rightarrow> string \<Rightarrow> flags \<Rightarrow> flags \<Rightarrow> error + flags" where
  "init_field useDefineForClassFields f s written =
     (case accessors s (lit f) of
        None \<Rightarrow> Inr written
      | Some idx \<Rightarrow>
          if useDefineForClassFields then Inl TypeError
          else (case setBit idx True s of (Some e, s') \<Rightarrow> Inl e | (None, s') \<Rightarrow> Inr s'))"

definition new_flags :: "bool \<Rightarrow> flags_class \<Rightarrow> js_value list \<Rightarrow> error + flags" where
  "new_flags useDefineForClassFields cls flagNames =
     (if length flagNames > static_MAX_FLAGS cls
      then Inl (TooManyFlags (static_MAX_FLAGS cls))
      else case BaseFlags_constructor flagNames of
        Inl e \<Rightarrow> Inl e
      | Inr s \<Rightarrow>
          (case init_field useDefineForClassFields ''MAX_FLAGS'' s
                  (s\<lparr>MAX_FLAGS := Some (static_MAX_FLAGS cls)\<rparr>) of
             Inl e \<Rightarrow> Inl e
           | Inr s1 \<Rightarrow>
               init_field useDefineForClassFields ''MAX_VALUE'' s1
                 (s1\<lparr>MAX_VALUE := Some (static_MAX_VALUE cls)\<rparr>)))"

subsection \<open>Flag operations\<close>

text \<open>\<open>return this.flagIndices.has(name)\<close>\<close>

definition hasFlag :: "flags \<Rightarrow> js_string \<Rightarrow> error + bool" where
  "hasFlag s name =
     (case shadowed s ''hasFlag'' of Some e \<Rightarrow> Inl e | None \<Rightarrow>
      case shadowed s ''flagIndices'' of Some e \<Rightarrow> Inl e | None \<Rightarrow>
        Inr (flagIndices s name \<noteq> None))"

definition getFlag :: "js_string \<Rightarrow> flags \<Rightarrow> error + bool" where
  "getFlag name s =
     (case shadowed s ''getFlag'' of Some e \<Rightarrow> Inl e | None \<Rightarrow>
      case hasFlag s name of Inl e \<Rightarrow> Inl e | Inr h \<Rightarrow>
        if \<not> h then Inl (FlagDoesNotExist name)
        else let idx = the (flagIndices s name) in getBit s idx)"

definition setFlag :: "js_string \<Rightarrow> bool \<Rightarrow> flags \<Rightarrow> outcome" where
  "setFlag name v s =
     (case shadowed s ''setFlag'' of Some e \<Rightarrow> (Some e, s) | None \<Rightarrow>
      case hasFlag s name of Inl e \<Rightarrow> (Some e, s) | Inr h \<Rightarrow>
        if \<not> h then (Some (FlagDoesNotExist name), s)
        else let idx = the (flagIndices s name) in setBit idx v s)"

text \<open>
  In \<open>this.setBit(idx, !this.getBit(idx))\<close> the host reads \<open>this.setBit\<close>, then
  evaluates the argument, then calls. If \<open>setBit\<close> is an accessor, its getter is
  a call of \<open>getBit\<close> like the argument, and throws \<open>RangeError\<close> exactly when
  the argument does; so evaluating the argument first gives the same result.
\<close>

definition toggleFlag :: "js_string \<Rightarrow> flags \<Rightarrow> outcome" where
  "toggleFlag name s =
     (case shadowed s ''toggleFlag'' of Some e \<Rightarrow> (Some e, s) | None \<Rightarrow>
      case hasFlag s name of Inl e \<Rightarrow> (Some e, s) | Inr h \<Rightarrow>
        if \<not> h then (Some (FlagDoesNotExist name), s)
        else let idx = the (flagIndices s name) in
          case getBit s idx of Inl e \<Rightarrow> (Some e, s) | Inr b \<Rightarrow> setBit idx (\<not> b) s)"

text \<open>
  \<open>for (const [name, value] of Object.entries(flags))
  if (this.hasFlag(name)) this.setFlag(name, value)\<close>
\<close>

fun setFlags_loop :: "(js_string \<times> bool) list \<Rightarrow> flags \<Rightarrow> outcome" where
  "setFlags_loop [] s = (None, s)"
| "setFlags_loop ((name, v) # rest) s =
     (case hasFlag s name of
        Inl e \<Rightarrow> (Some e, s)
      | Inr h \<Rightarrow>
          if h
          then (case setFlag name v s of
                  (Some e, s') \<Rightarrow> (Some e, s')
                | (None, s') \<Rightarrow> setFlags_loop rest s')
          else setFlags_loop rest s)"

definition setFlags :: "js_object \<Rightarrow> flags \<Rightarrow> outcome" where
  "setFlags obj s =
     (case shadowed s ''setFlags'' of
        Some e \<Rightarrow> (Some e, s)
      | None \<Rightarrow> setFlags_loop (Object_entries obj) s)"

text \<open>\<open>for (const name of names) if (this.hasFlag(name)) this.toggleFlag(name)\<close>\<close>

fun toggleFlags_loop :: "js_string list \<Rightarrow> flags \<Rightarrow> outcome" where
  "toggleFlags_loop [] s = (None, s)"
| "toggleFlags_loop (name # names) s =
     (case hasFlag s name of
        Inl e \<Rightarrow> (Some e, s)
      | Inr h \<Rightarrow>
          if h
          then (case toggleFlag name s of
                  (Some e, s') \<Rightarrow> (Some e, s')
                | (None, s') \<Rightarrow> toggleFlags_loop names s')
          else toggleFlags_loop names s)"

definition toggleFlags :: "js_string list \<Rightarrow> flags \<Rightarrow> outcome" where
  "toggleFlags names s =
     (case shadowed s ''toggleFlags'' of
        Some e \<Rightarrow> (Some e, s)
      | None \<Rightarrow> toggleFlags_loop names s)"

text \<open>
  The accessors themselves, used from outside as \<open>flags.name\<close> and
  \<open>flags.name = v\<close>; \<open>None\<close> when the instance has no accessor of that name.
\<close>

definition get_property :: "js_string \<Rightarrow> flags \<Rightarrow> (error + bool) option" where
  "get_property name s =
     (case accessors s name of None \<Rightarrow> None | Some idx \<Rightarrow> Some (getBit s idx))"

definition set_property :: "js_string \<Rightarrow> bool \<Rightarrow> flags \<Rightarrow> outcome option" where
  "set_property name v s =
     (case accessors s name of None \<Rightarrow> None | Some idx \<Rightarrow> Some (setBit idx v s))"

subsection \<open>Aggregate queries\<close>

text \<open>\<open>for (let i = 0; i < this.nextIndex; i++) if (this.getBit(i)) count++\<close>\<close>

function count_loop :: "flags \<Rightarrow> nat \<Rightarrow> nat \<Rightarrow> error + nat" where
  "count_loop s i c =
     (case this_nextIndex s of
        Inl e \<Rightarrow> Inl e
      | Inr n \<Rightarrow>
          if i < n
          then (case getBit s i of
                  Inl e \<Rightarrow> Inl e
                | Inr b \<Rightarrow> count_loop s (i + 1) (if b then c + 1 else c))
          else Inr c)"
  by pat_completeness auto
termination
  by (relation "measure (\<lambda>(s, i, c). (case this_nextIndex s of Inl e \<Rightarrow> 0 | Inr n \<Rightarrow> n - i))") auto

definition count :: "flags \<Rightarrow> error + nat" where
  "count s = (case shadowed s ''count'' of Some e \<Rightarrow> Inl e | None \<Rightarrow> count_loop s 0 0)"

text \<open>\<open>return this.value !== 0\<close> and \<open>return this.value === 0\<close>\<close>

definition any :: "flags \<Rightarrow> error + bool" where
  "any s =
     (case shadowed s ''any'' of Some e \<Rightarrow> Inl e | None \<Rightarrow>
      case this_value s of Inl e \<Rightarrow> Inl e | Inr x \<Rightarrow> Inr (x \<noteq> 0))"

definition none :: "flags \<Rightarrow> error + bool" where
  "none s =
     (case shadowed s ''none'' of Some e \<Rightarrow> Inl e | None \<Rightarrow>
      case this_value s of Inl e \<Rightarrow> Inl e | Inr x \<Rightarrow> Inr (x = 0))"

subsection \<open>Serialisation\<close>

definition toValue :: "flags \<Rightarrow> error + int" where
  "toValue s = (case shadowed s ''toValue'' of Some e \<Rightarrow> Inl e | None \<Rightarrow> this_value s)"

text \<open>
  \<open>throw new Error(`Value must be integer 0-${this.MAX_VALUE}`)\<close>: the message
  reads \<open>this.MAX_VALUE\<close>.
\<close>

definition throw_ValueNotInRange :: "flags \<Rightarrow> outcome" where
  "throw_ValueNotInRange s =
     (case this_MAX_VALUE s of
        Inl e \<Rightarrow> (Some e, s)
      | Inr m \<Rightarrow> (Some (ValueNotInRange m), s))"

text \<open>
  \<open>if (!Number.isInteger(v) || v < 0 || v > this.MAX_VALUE) throw ...;
  this.value = v\<close>. The comparison \<open>v > this.MAX_VALUE\<close> is false when
  \<open>MAX_VALUE\<close> is \<open>undefined\<close>.
\<close>

definition fromValue :: "js_number \<Rightarrow> flags \<Rightarrow> outcome" where
  "fromValue v s =
     (case shadowed s ''fromValue'' of Some e \<Rightarrow> (Some e, s) | None \<Rightarrow>
      case v of
        NonInteger \<Rightarrow> throw_ValueNotInRange s
      | Integer i \<Rightarrow>
          if i < 0 then throw_ValueNotInRange s
          else case this_MAX_VALUE s of Inl e \<Rightarrow> (Some e, s) | Inr m \<Rightarrow>
            if (case ToNumber m of None \<Rightarrow> False | Some k \<Rightarrow> i > k)
            then throw_ValueNotInRange s
            else assign_field s ''value'' (i \<noteq> 0) (s\<lparr>value := i\<rparr>))"

text \<open>
  The width-labelled aliases: \<open>toByte\<close>/\<open>fromByte\<close> of \<open>ByteFlags\<close>,
  \<open>toShort\<close>/\<open>fromShort\<close> of \<open>ShortFlags\<close>, \<open>toLong\<close>/\<open>fromLong\<close> of
  \<open>LongFlags\<close>; each returns \<open>this.toValue()\<close> or \<open>this.fromValue(x)\<close>.
\<close>

definition toByte :: "flags \<Rightarrow> error + int" where
  "toByte s = (case shadowed s ''toByte'' of Some e \<Rightarrow> Inl e | None \<Rightarrow> toValue s)"

definition toShort :: "flags \<Rightarrow> error + int" where
  "toShort s = (case shadowed s ''toShort'' of Some e \<Rightarrow> Inl e | None \<Rightarrow> toValue s)"

definition toLong :: "flags \<Rightarrow> error + int" where
  "toLong s = (case shadowed s ''toLong'' of Some e \<Rightarrow> Inl e | None \<Rightarrow> toValue s)"

definition fromByte :: "js_number \<Rightarrow> flags \<Rightarrow> outcome" where
  "fromByte b s =
     (case shadowed s ''fromByte'' of Some e \<Rightarrow> (Some e, s) | None \<Rightarrow> fromValue b s)"

definition fromShort :: "js_number \<Rightarrow> flags \<Rightarrow> outcome" where
  "fromShort x s =
     (case shadowed s ''fromShort'' of Some e \<Rightarrow> (Some e, s) | None \<Rightarrow> fromValue x s)"

definition fromLong :: "js_number \<Rightarrow> flags \<Rightarrow> outcome" where
  "fromLong l s =
     (case shadowed s ''fromLong'' of Some e \<Rightarrow> (Some e, s) | None \<Rightarrow> fromValue l s)"

text \<open>\<open>this.flagList.reduce((obj, name) => { obj[name] = this.getFlag(name); return obj; }, {})\<close>\<close>

fun toObject_reduce :: "flags \<Rightarrow> js_string list \<Rightarrow> js_object \<Rightarrow> error + js_object" where
  "toObject_reduce s [] obj = Inr obj"
| "toObject_reduce s (name # names) obj =
     (case getFlag name s of
        Inl e \<Rightarrow> Inl e
      | Inr b \<Rightarrow> toObject_reduce s names (obj_set obj name b))"

definition toObject :: "flags \<Rightarrow> error + js_object" where
  "toObject s =
     (case shadowed s ''toObject'' of Some e \<Rightarrow> Inl e | None \<Rightarrow>
      case shadowed s ''flagList'' of Some e \<Rightarrow> Inl e | None \<Rightarrow>
        toObject_reduce s (flagList s) [])"

definition toJSON :: "flags \<Rightarrow> error + json_text" where
  "toJSON s =
     (case shadowed s ''toJSON'' of Some e \<Rightarrow> Inl e | None \<Rightarrow>
      case toObject s of Inl e \<Rightarrow> Inl e | Inr obj \<Rightarrow> Inr (JSON_stringify obj))"

text \<open>\<open>return [...this.flagList]\<close>\<close>

definition getFlagNames :: "flags \<Rightarrow> error + js_string list" where
  "getFlagNames s =
     (case shadowed s ''getFlagNames'' of Some e \<Rightarrow> Inl e | None \<Rightarrow>
      case shadowed s ''flagList'' of Some e \<Rightarrow> Inl e | None \<Rightarrow> Inr (flagList s))"

text \<open>
  The static \<open>fromJSON(json: string | object)\<close> of each subclass: parse a string,
  construct an instance of the same class from \<open>Object.keys(obj)\<close>, and return
  \<open>instance.setFlags(obj)\<close>.
\<close>

datatype json_arg = Json_string json_text | Json_object js_object

definition fromJSON :: "bool \<Rightarrow> flags_class \<Rightarrow> json_arg \<Rightarrow> error + flags" where
  "fromJSON useDefineForClassFields cls json =
     (case (case json of Json_string t \<Rightarrow> JSON_parse t | Json_object obj \<Rightarrow> Inr obj) of
        Inl e \<Rightarrow> Inl e
      | Inr obj \<Rightarrow>
          (case new_flags useDefineForClassFields cls (map JString (Object_keys obj)) of
             Inl e \<Rightarrow> Inl e
           | Inr instance \<Rightarrow>
               (case setFlags obj instance of
                  (Some e, s') \<Rightarrow> Inl e
                | (None, s') \<Rightarrow> Inr s')))"

subsection \<open>Reachable states\<close>

text \<open>
  The states a container of class \<open>cls\<close> can be in: what a constructor returns,
  closed under every public mutator (whether it throws or not) and under
  assignment to a flag's property.
\<close>

inductive reachable :: "flags_class \<Rightarrow> flags \<Rightarrow> bool" for cls where
  r_new: "new_flags u cls flagNames = Inr s \<Longrightarrow> reachable cls s"
| r_setFlag: "reachable cls s \<Longrightarrow> reachable cls (snd (setFlag name v s))"
| r_toggleFlag: "reachable cls s \<Longrightarrow> reachable cls (snd (toggleFlag name s))"
| r_setFlags: "reachable cls s \<Longrightarrow> reachable cls (snd (setFlags obj s))"
| r_toggleFlags: "reachable cls s \<Longrightarrow> reachable cls (snd (toggleFlags names s))"
| r_fromValue: "reachable cls s \<Longrightarrow> reachable cls (snd (fromValue v s))"
| r_set_property:
    "reachable cls s \<Longrightarrow> set_property name v s = Some r \<Longrightarrow> reachable cls (snd r)"

section \<open>Fresh names and well-formed registries\<close>

text \<open>
  Auxiliary notions for the proofs.

  \<open>member_names\<close> lists the names under which an instance has or inherits a
  member before \<open>addFlag\<close> runs: the fields, the methods of \<open>BaseFlags\<close> and of
  the three subclasses, and \<open>constructor\<close> and \<open>__proto__\<close> of
  \<open>Object.prototype\<close>. A name is fresh if it is none of them, and an instance
  is fresh if none of its accessors stands under a member's name; then every
  member access above reaches the member itself.

  \<open>valid_name\<close> is what \<open>addFlag\<close> accepts as a name; \<open>constructed cls ns\<close> is
  the instance that \<open>new cls(...ns)\<close> returns for fresh names (lemma
  \<open>new_flags_success\<close>); \<open>same_registry s s'\<close> says that \<open>s'\<close> differs from
  \<open>s\<close> in the stored value at most; \<open>wf_registry\<close> collects what holds of the
  registry of every reachable fresh instance. \<open>bit_of\<close>, \<open>with_bit\<close> and
  \<open>registered\<close> are what \<open>getBit\<close>, \<open>setBit\<close> and \<open>hasFlag\<close> compute on a
  fresh instance.
\<close>

definition member_names :: "js_string list" where
  "member_names = map lit
     [''value'', ''nextIndex'', ''flagList'', ''flagIndices'', ''MAX_FLAGS'', ''MAX_VALUE'',
      ''addFlag'', ''getBit'', ''setBit'', ''hasFlag'', ''getFlag'', ''setFlag'',
      ''toggleFlag'', ''setFlags'', ''toggleFlags'', ''count'', ''any'', ''none'',
      ''toValue'', ''fromValue'', ''toObject'', ''toJSON'', ''all'', ''anyOf'', ''noneOf'',
      ''getFlagNames'', ''toString'', ''getFlags'',
      ''toByte'', ''fromByte'', ''toShort'', ''fromShort'', ''toLong'', ''fromLong'',
      ''constructor'', ''__proto__'']"

definition fresh_name :: "js_string \<Rightarrow> bool" where
  "fresh_name n \<longleftrightarrow> n \<notin> set member_names"

fun fresh_arg :: "js_value \<Rightarrow> bool" where
  "fresh_arg (JString n) \<longleftrightarrow> fresh_name n"
| "fresh_arg JOther \<longleftrightarrow> True"

definition fresh :: "flags \<Rightarrow> bool" where
  "fresh s \<longleftrightarrow> list_all (\<lambda>m. accessors s m = None) member_names"

fun valid_name :: "js_value \<Rightarrow> bool" where
  "valid_name (JString n) \<longleftrightarrow> trim n \<noteq> []"
| "valid_name JOther \<longleftrightarrow> False"

definition constructed :: "flags_class \<Rightarrow> js_string list \<Rightarrow> flags" where
  "constructed cls ns =
     \<lparr>value = 0, nextIndex = length ns, flagList = ns,
      flagIndices = map_of (zip ns [0..<length ns]),
      MAX_FLAGS = Some (static_MAX_FLAGS cls), MAX_VALUE = Some (static_MAX_VALUE cls),
      accessors = map_of (zip ns [0..<length ns])\<rparr>"

definition same_registry :: "flags \<Rightarrow> flags \<Rightarrow> bool" where
  "same_registry s s' \<longleftrightarrow> s' = s\<lparr>value := value s'\<rparr>"

definition wf_registry :: "flags_class \<Rightarrow> flags \<Rightarrow> bool" where
  "wf_registry cls s \<longleftrightarrow>
     flagList s \<noteq> [] \<and> length (flagList s) \<le> static_MAX_FLAGS cls \<and>
     distinct (flagList s) \<and> list_all (\<lambda>n. trim n \<noteq> []) (flagList s) \<and>
     list_all fresh_name (flagList s) \<and>
     nextIndex s = length (flagList s) \<and>
     flagIndices s = map_of (zip (flagList s) [0..<length (flagList s)]) \<and>
     accessors s = flagIndices s \<and>
     MAX_FLAGS s = Some (static_MAX_FLAGS cls) \<and>
     MAX_VALUE s = Some (static_MAX_VALUE cls)"

definition bit_of :: "flags \<Rightarrow> nat \<Rightarrow> bool" where
  "bit_of s position \<longleftrightarrow> js_and (value s) (js_shl 1 position) \<noteq> 0"

definition with_bit :: "nat \<Rightarrow> bool \<Rightarrow> flags \<Rightarrow> flags" where
  "with_bit position v s =
     (if v then s\<lparr>value := js_or (value s) (js_shl 1 position)\<rparr>
      else s\<lparr>value := js_and (value s) (js_not (js_shl 1 position))\<rparr>)"

definition registered :: "flags \<Rightarrow> js_string \<Rightarrow> bool" where
  "registered s n \<longleftrightarrow> flagIndices s n \<noteq> None"

text \<open>The documented range of the stored value: \<open>0 .. MAX_VALUE\<close>.\<close>

definition in_range :: "flags_class \<Rightarrow> flags \<Rightarrow> bool" where
  "in_range cls s \<longleftrightarrow> 0 \<le> value s \<and> value s \<le> static_MAX_VALUE cls"

text \<open>The names \<open>f0\<close>, ..., \<open>f31\<close>: as many as a \<open>LongFlags\<close> can hold.\<close>

definition flag_names_32 :: "js_string list" where
  "flag_names_32 = map lit
     [''f0'', ''f1'', ''f2'', ''f3'', ''f4'', ''f5'', ''f6'', ''f7'',
      ''f8'', ''f9'', ''f10'', ''f11'', ''f12'', ''f13'', ''f14'', ''f15'',
      ''f16'', ''f17'', ''f18'', ''f19'', ''f20'', ''f21'', ''f22'', ''f23'',
      ''f24'', ''f25'', ''f26'', ''f27'', ''f28'', ''f29'', ''f30'', ''f31'']"

text \<open>
  The instance that \<open>new ByteFlags("nextIndex", "b")\<close> returns: the accessor
  \<open>nextIndex\<close> has taken the place of the field, \<open>this.nextIndex++\<close> for \<open>b\<close>
  has read \<open>false\<close> through it and written 1 through it, so both names stand
  for bit 0, and that bit is set.
\<close>

definition nextIndex_b :: flags where
  "nextIndex_b =
     \<lparr>value = 1, nextIndex = 1, flagList = [lit ''nextIndex'', lit ''b''],
      flagIndices = [lit ''nextIndex'' \<mapsto> 0, lit ''b'' \<mapsto> 0],
      MAX_FLAGS = Some 8, MAX_VALUE = Some 255,
      accessors = [lit ''nextIndex'' \<mapsto> 0, lit ''b'' \<mapsto> 0]\<rparr>"

section \<open>Literals\<close>

lemma inj_code_unit: "inj (\<lambda>c :: char. (of_nat (of_char c) :: 16 word))"
proof (rule injI)
  fix a b :: char
  assume "(of_nat (of_char a) :: 16 word) = of_nat (of_char b)"
  then have "unat (of_nat (of_char a :: nat) :: 16 word) = unat (of_nat (of_char b :: nat) :: 16 word)"
    by simp
  moreover have "(of_char c :: nat) < 2 ^ 16" for c
    using nat_of_char_less_256 [of c] by (rule order_less_trans) simp
  ultimately have "(of_char a :: nat) = of_char b"
    by (simp add: unat_of_nat)
  then show "a = b" by simp
qed

lemma lit_eq_iff [simp]: "lit a = lit b \<longleftrightarrow> a = b"
  unfolding lit_def by (rule inj_map_eq_map [OF inj_code_unit])

section \<open>Fresh instances\<close>

lemma fresh_accessors:
  assumes "fresh s"
  shows "accessors s (lit ''value'') = None" "accessors s (lit ''nextIndex'') = None"
    "accessors s (lit ''flagList'') = None" "accessors s (lit ''flagIndices'') = None"
    "accessors s (lit ''MAX_FLAGS'') = None" "accessors s (lit ''MAX_VALUE'') = None"
    "accessors s (lit ''getBit'') = None" "accessors s (lit ''__proto__'') = None"
  using assms by (simp_all add: fresh_def member_names_def)

lemma fresh_shadowed:
  assumes "fresh s"
  shows "shadowed s ''addFlag'' = None" "shadowed s ''setBit'' = None"
    "shadowed s ''flagList'' = None" "shadowed s ''flagIndices'' = None"
    "shadowed s ''hasFlag'' = None" "shadowed s ''getFlag'' = None"
    "shadowed s ''setFlag'' = None" "shadowed s ''toggleFlag'' = None"
    "shadowed s ''setFlags'' = None" "shadowed s ''toggleFlags'' = None"
    "shadowed s ''count'' = None" "shadowed s ''any'' = None" "shadowed s ''none'' = None"
    "shadowed s ''toValue'' = None" "shadowed s ''fromValue'' = None"
    "shadowed s ''toObject'' = None" "shadowed s ''toJSON'' = None"
    "shadowed s ''getFlagNames'' = None"
    "shadowed s ''toByte'' = None" "shadowed s ''fromByte'' = None"
    "shadowed s ''toShort'' = None" "shadowed s ''fromShort'' = None"
    "shadowed s ''toLong'' = None" "shadowed s ''fromLong'' = None"
  using assms by (simp_all add: fresh_def member_names_def shadowed_def)

lemma fresh_value_update [simp]: "fresh (s\<lparr>value := v\<rparr>) = fresh s"
  by (simp add: fresh_def)

lemma fresh_with_bit [simp]: "fresh (with_bit p b s) = fresh s"
  by (simp add: with_bit_def)

lemma fresh_getBit: "fresh s \<Longrightarrow> getBit s p = Inr (bit_of s p)"
  by (simp add: getBit_def bit_of_def fresh_accessors)

lemma fresh_setBit: "fresh s \<Longrightarrow> setBit p b s = (None, with_bit p b s)"
  by (simp add: setBit_def with_bit_def fresh_accessors fresh_shadowed)

lemma fresh_hasFlag: "fresh s \<Longrightarrow> hasFlag s n = Inr (registered s n)"
  by (simp add: hasFlag_def registered_def fresh_shadowed)

lemma fresh_getFlag:
  "fresh s \<Longrightarrow> getFlag n s =
     (if \<not> registered s n then Inl (FlagDoesNotExist n)
      else Inr (bit_of s (the (flagIndices s n))))"
  by (simp add: getFlag_def fresh_hasFlag fresh_getBit fresh_shadowed)

lemma fresh_setFlag:
  "fresh s \<Longrightarrow> setFlag n v s =
     (if \<not> registered s n then (Some (FlagDoesNotExist n), s)
      else (None, with_bit (the (flagIndices s n)) v s))"
  by (simp add: setFlag_def fresh_hasFlag fresh_setBit fresh_shadowed)

lemma fresh_toggleFlag:
  "fresh s \<Longrightarrow> toggleFlag n s =
     (if \<not> registered s n then (Some (FlagDoesNotExist n), s)
      else (None, with_bit (the (flagIndices s n)) (\<not> bit_of s (the (flagIndices s n))) s))"
  by (simp add: toggleFlag_def fresh_hasFlag fresh_getBit fresh_setBit fresh_shadowed Let_def)

lemma fresh_this_nextIndex: "fresh s \<Longrightarrow> this_nextIndex s = Inr (nextIndex s)"
  by (simp add: this_nextIndex_def fresh_accessors)

lemma fresh_this_value: "fresh s \<Longrightarrow> this_value s = Inr (value s)"
  by (simp add: this_value_def fresh_accessors)

lemma fresh_this_MAX_VALUE:
  "fresh s \<Longrightarrow> this_MAX_VALUE s =
     Inr (case MAX_VALUE s of None \<Rightarrow> Undefined | Some m \<Rightarrow> Number m)"
  by (simp add: this_MAX_VALUE_def read_field_def fresh_accessors)

lemma fresh_this_MAX_FLAGS:
  "fresh s \<Longrightarrow> this_MAX_FLAGS s =
     Inr (case MAX_FLAGS s of None \<Rightarrow> Undefined | Some m \<Rightarrow> Number (int m))"
  by (simp add: this_MAX_FLAGS_def read_field_def fresh_accessors)

lemma fresh_any: "fresh s \<Longrightarrow> any s = Inr (value s \<noteq> 0)"
  by (simp add: any_def fresh_this_value fresh_shadowed)

lemma fresh_none: "fresh s \<Longrightarrow> none s = Inr (value s = 0)"
  by (simp add: none_def fresh_this_value fresh_shadowed)

lemma fresh_toValue: "fresh s \<Longrightarrow> toValue s = Inr (value s)"
  by (simp add: toValue_def fresh_this_value fresh_shadowed)

lemma fresh_getFlagNames: "fresh s \<Longrightarrow> getFlagNames s = Inr (flagList s)"
  by (simp add: getFlagNames_def fresh_shadowed)

lemma fresh_fromValue:
  "fresh s \<Longrightarrow> MAX_VALUE s = Some m \<Longrightarrow> fromValue v s =
     (case v of
        NonInteger \<Rightarrow> (Some (ValueNotInRange (Number m)), s)
      | Integer i \<Rightarrow>
          if i < 0 \<or> m < i then (Some (ValueNotInRange (Number m)), s)
          else (None, s\<lparr>value := i\<rparr>))"
  by (simp add: fromValue_def throw_ValueNotInRange_def fresh_this_MAX_VALUE assign_field_def
      fresh_accessors fresh_shadowed split: js_number.split)

lemma fresh_aliases:
  assumes "fresh s"
  shows "toByte s = toValue s" "toShort s = toValue s" "toLong s = toValue s"
    "fromByte v s = fromValue v s" "fromShort v s = fromValue v s" "fromLong v s = fromValue v s"
  using assms
  by (simp_all add: toByte_def toShort_def toLong_def fromByte_def fromShort_def fromLong_def
      fresh_shadowed)

lemma fresh_addFlag:
  assumes "fresh s" "MAX_FLAGS s = None"
  shows "addFlag a s =
     (case a of
        JOther \<Rightarrow> Inl EmptyFlagName
      | JString n \<Rightarrow>
          if trim n = [] then Inl EmptyFlagName
          else if n \<in> set (flagList s) then Inl (DuplicateFlag n)
          else Inr (s\<lparr>nextIndex := nextIndex s + 1, flagList := flagList s @ [n],
                      flagIndices := (flagIndices s)(n \<mapsto> nextIndex s),
                      accessors := (accessors s)(n \<mapsto> nextIndex s)\<rparr>))"
  using assms
  by (simp add: addFlag_def fresh_this_nextIndex fresh_this_MAX_FLAGS assign_field_def
      fresh_accessors fresh_shadowed fresh_def Let_def split: js_value.split)

section \<open>Bits\<close>

lemma w32_sint [simp]: "word_of_int (sint (w :: 32 word)) = w"
  by simp

lemma sint_eq_0 [simp]: "sint (w :: 32 word) = 0 \<longleftrightarrow> w = 0"
  by (simp add: signed_eq_0_iff)

lemma bit_of_bit: "bit_of s p \<longleftrightarrow> bit (word_of_int (value s) :: 32 word) (p mod 32)"
proof -
  have "(word_of_int (value s) :: 32 word) AND push_bit (p mod 32) 1 \<noteq> 0
      \<longleftrightarrow> bit (word_of_int (value s) :: 32 word) (p mod 32)"
    by (simp add: and_exp_eq_0_iff_not_bit)
  then show ?thesis
    by (simp add: bit_of_def js_and_def js_shl_def)
qed

lemma w32_with_bit:
  "(word_of_int (value (with_bit p b s)) :: 32 word) =
     (if b then word_of_int (value s) OR push_bit (p mod 32) 1
      else word_of_int (value s) AND NOT (push_bit (p mod 32) 1))"
  by (simp add: with_bit_def js_or_def js_and_def js_not_def js_shl_def)

lemma bit_of_with_bit:
  "bit_of (with_bit p b s) q \<longleftrightarrow> (if q mod 32 = p mod 32 then b else bit_of s q)"
  by (auto simp add: bit_of_bit w32_with_bit bit_simps)

section \<open>The registry is fixed at construction\<close>

lemma same_registry_refl [simp]: "same_registry s s"
  by (simp add: same_registry_def)

lemma same_registry_update [simp]: "same_registry s (s\<lparr>value := v\<rparr>)"
  by (simp add: same_registry_def)

lemma same_registry_trans:
  "same_registry s t \<Longrightarrow> same_registry t u \<Longrightarrow> same_registry s u"
  by (cases s, cases t, cases u) (simp add: same_registry_def)

lemma same_registry_fields:
  assumes "same_registry s t"
  shows "nextIndex t = nextIndex s" "flagList t = flagList s"
    "flagIndices t = flagIndices s" "MAX_FLAGS t = MAX_FLAGS s" "MAX_VALUE t = MAX_VALUE s"
    "accessors t = accessors s"
  using assms by (cases s, cases t, simp add: same_registry_def)+

lemma same_registry_registered: "same_registry s t \<Longrightarrow> registered t n = registered s n"
  by (simp add: registered_def same_registry_fields)

lemma same_registry_fresh: "same_registry s t \<Longrightarrow> fresh t = fresh s"
  by (simp add: fresh_def same_registry_fields)

lemma same_registry_wf: "same_registry s t \<Longrightarrow> wf_registry cls t = wf_registry cls s"
  by (simp add: wf_registry_def same_registry_fields)

lemma with_bit_same [simp]: "same_registry s (with_bit p b s)"
  by (simp add: with_bit_def)

lemma setBit_same [simp]: "same_registry s (snd (setBit p b s))"
  by (simp add: setBit_def split: option.split)

lemma setFlag_same [simp]: "same_registry s (snd (setFlag n b s))"
  by (simp add: setFlag_def Let_def split: option.split sum.split)

lemma toggleFlag_same [simp]: "same_registry s (snd (toggleFlag n s))"
  by (simp add: toggleFlag_def Let_def split: option.split sum.split)

lemma assign_field_value_same [simp]:
  "same_registry s (snd (assign_field s f b (s\<lparr>value := i\<rparr>)))"
  by (simp add: assign_field_def split: option.split)

lemma fromValue_same [simp]: "same_registry s (snd (fromValue v s))"
  by (simp add: fromValue_def throw_ValueNotInRange_def
      split: js_number.split option.split sum.split)

lemma set_property_same: "set_property n b s = Some r \<Longrightarrow> same_registry s (snd r)"
  by (auto simp add: set_property_def split: option.splits)

lemma setFlags_loop_same [simp]: "same_registry s (snd (setFlags_loop es s))"
proof (induction es arbitrary: s)
  case Nil
  show ?case by simp
next
  case (Cons e es)
  obtain n b where e: "e = (n, b)" by (cases e)
  obtain eo t where t: "setFlag n b s = (eo, t)" by (cases "setFlag n b s")
  have st: "same_registry s t" using setFlag_same [of s n b] by (simp add: t)
  show ?case
  proof (cases "hasFlag s n")
    case (Inl x)
    then show ?thesis by (simp add: e)
  next
    case (Inr h)
    show ?thesis
    proof (cases "h \<and> eo = None")
      case True
      then have "setFlags_loop (e # es) s = setFlags_loop es t"
        using Inr t by (simp add: e)
      with same_registry_trans [OF st Cons.IH [of t]] show ?thesis by simp
    next
      case False
      then show ?thesis using Inr t st Cons.IH [of s] by (cases eo) (auto simp add: e)
    qed
  qed
qed

lemma setFlags_same [simp]: "same_registry s (snd (setFlags obj s))"
  by (simp add: setFlags_def split: option.split)

lemma toggleFlags_loop_same [simp]: "same_registry s (snd (toggleFlags_loop ns s))"
proof (induction ns arbitrary: s)
  case Nil
  show ?case by simp
next
  case (Cons n ns)
  obtain eo t where t: "toggleFlag n s = (eo, t)" by (cases "toggleFlag n s")
  have st: "same_registry s t" using toggleFlag_same [of s n] by (simp add: t)
  show ?case
  proof (cases "hasFlag s n")
    case (Inl x)
    then show ?thesis by simp
  next
    case (Inr h)
    show ?thesis
    proof (cases "h \<and> eo = None")
      case True
      then have "toggleFlags_loop (n # ns) s = toggleFlags_loop ns t"
        using Inr t by simp
      with same_registry_trans [OF st Cons.IH [of t]] show ?thesis by simp
    next
      case False
      then show ?thesis using Inr t st Cons.IH [of s] by (cases eo) auto
    qed
  qed
qed

lemma toggleFlags_same [simp]: "same_registry s (snd (toggleFlags ns s))"
  by (simp add: toggleFlags_def split: option.split)

section \<open>Construction\<close>

text \<open>What holds of every successful construction, whatever the names.\<close>

lemma assign_field_nextIndex:
  assumes "assign_field s f b (s\<lparr>nextIndex := k\<rparr>) = (None, t)"
  shows "flagList t = flagList s" "accessors t = accessors s" "flagIndices t = flagIndices s"
    "MAX_FLAGS t = MAX_FLAGS s" "MAX_VALUE t = MAX_VALUE s"
proof -
  have "t = s\<lparr>nextIndex := k\<rparr> \<or> same_registry s t"
  proof (cases "accessors s (lit f)")
    case None
    with assms show ?thesis by (simp add: assign_field_def)
  next
    case (Some idx)
    with assms have "t = snd (setBit idx b s)" by (simp add: assign_field_def)
    then show ?thesis by simp
  qed
  then show "flagList t = flagList s" "accessors t = accessors s" "flagIndices t = flagIndices s"
    "MAX_FLAGS t = MAX_FLAGS s" "MAX_VALUE t = MAX_VALUE s"
    by (auto simp add: same_registry_fields)
qed

lemma addFlag_Inr:
  assumes "addFlag a s = Inr t"
  obtains n idx where "a = JString n" "trim n \<noteq> []" "n \<notin> set (flagList s)"
    "flagList t = flagList s @ [n]" "accessors t = (accessors s)(n \<mapsto> idx)"
    "MAX_FLAGS t = MAX_FLAGS s"
proof -
  from assms obtain n where n: "a = JString n"
    by (cases a) (auto simp add: addFlag_def split: option.splits sum.splits if_splits)
  from assms n obtain old s1 where
    s1: "trim n \<noteq> []" "n \<notin> set (flagList s)"
      "assign_field s ''nextIndex'' True (s\<lparr>nextIndex := old + 1\<rparr>) = (None, s1)"
      "t = s1\<lparr>flagList := flagList s1 @ [n],
             flagIndices := (flagIndices s1)(n \<mapsto> old),
             accessors := (accessors s1)(n \<mapsto> old)\<rparr>"
    by (auto simp add: addFlag_def Let_def split: option.splits sum.splits if_splits prod.splits)
  note f = assign_field_nextIndex [OF s1(3)]
  show thesis
    by (rule that [of n old]) (simp_all add: n s1 f)
qed

lemma addFlags_Inr:
  assumes "addFlags args s = Inr t"
  shows "\<exists>ns. args = map JString ns \<and> list_all (\<lambda>n. trim n \<noteq> []) ns \<and>
           flagList t = flagList s @ ns \<and>
           (distinct (flagList s) \<longrightarrow> distinct (flagList s @ ns)) \<and>
           MAX_FLAGS t = MAX_FLAGS s \<and>
           (\<forall>n. n \<in> set ns \<or> accessors s n \<noteq> None \<longrightarrow> accessors t n \<noteq> None)"
  using assms
proof (induction args arbitrary: s)
  case Nil
  then show ?case by simp
next
  case (Cons a args)
  from Cons.prems obtain r where r: "addFlag a s = Inr r" "addFlags args r = Inr t"
    by (auto split: sum.splits)
  from r(1) obtain n idx where n: "a = JString n" "trim n \<noteq> []"
    "n \<notin> set (flagList s)" "flagList r = flagList s @ [n]"
    "accessors r = (accessors s)(n \<mapsto> idx)" "MAX_FLAGS r = MAX_FLAGS s"
    by (rule addFlag_Inr)
  from Cons.IH [OF r(2)] obtain ns where ns: "args = map JString ns"
    "list_all (\<lambda>n. trim n \<noteq> []) ns" "flagList t = flagList r @ ns"
    "distinct (flagList r) \<longrightarrow> distinct (flagList r @ ns)"
    "MAX_FLAGS t = MAX_FLAGS r"
    "\<forall>n. n \<in> set ns \<or> accessors r n \<noteq> None \<longrightarrow> accessors t n \<noteq> None"
    by blast
  have "a # args = map JString (n # ns)" using n(1) ns(1) by simp
  moreover have "list_all (\<lambda>n. trim n \<noteq> []) (n # ns)" using n(2) ns(2) by simp
  moreover have "flagList t = flagList s @ n # ns" using ns(3) n(4) by simp
  moreover have "distinct (flagList s) \<longrightarrow> distinct (flagList s @ n # ns)"
    using ns(4) n(3,4) by auto
  moreover have "MAX_FLAGS t = MAX_FLAGS s" using ns(5) n(6) by simp
  moreover have "\<forall>m. m \<in> set (n # ns) \<or> accessors s m \<noteq> None \<longrightarrow> accessors t m \<noteq> None"
    using ns(6) n(5) by auto
  ultimately show ?case by (intro exI [of _ "n # ns"] conjI)
qed

lemma init_field_Inr:
  assumes "init_field u f s (s\<lparr>MAX_FLAGS := a\<rparr>) = Inr t \<or> init_field u f s (s\<lparr>MAX_VALUE := b\<rparr>) = Inr t"
  shows "flagList t = flagList s" "accessors t = accessors s"
proof -
  have "t = s\<lparr>MAX_FLAGS := a\<rparr> \<or> t = s\<lparr>MAX_VALUE := b\<rparr> \<or> same_registry s t"
  proof (cases "accessors s (lit f)")
    case None
    with assms show ?thesis by (auto simp add: init_field_def)
  next
    case (Some idx)
    with assms have "t = snd (setBit idx True s)"
      by (auto simp add: init_field_def split: if_splits prod.splits option.splits)
    then show ?thesis by simp
  qed
  then show "flagList t = flagList s" "accessors t = accessors s"
    by (auto simp add: same_registry_fields)
qed

lemma inj_JString: "inj JString"
  by (simp add: inj_def)

lemma valid_name_map_JString [simp]:
  "list_all valid_name (map JString ns) = list_all (\<lambda>n. trim n \<noteq> []) ns"
  by (induction ns) auto

lemma fresh_arg_map_JString [simp]:
  "list_all fresh_arg (map JString ns) = list_all fresh_name ns"
  by (induction ns) auto

lemma valid_names_strings:
  "list_all valid_name args \<Longrightarrow> \<exists>ns. args = map JString ns"
proof (induction args)
  case Nil
  show ?case by simp
next
  case (Cons a args)
  then obtain ns where ns: "args = map JString ns" by auto
  from Cons.prems obtain n where "a = JString n" by (cases a) auto
  with ns have "a # args = map JString (n # ns)" by simp
  then show ?case by (rule exI)
qed

lemma list_all_valid_name:
  "list_all valid_name args \<longleftrightarrow> (\<exists>ns. args = map JString ns \<and> list_all (\<lambda>n. trim n \<noteq> []) ns)"
proof
  assume a: "list_all valid_name args"
  then obtain ns where ns: "args = map JString ns"
    using valid_names_strings by auto
  with a have "args = map JString ns \<and> list_all (\<lambda>n. trim n \<noteq> []) ns" by simp
  then show "\<exists>ns. args = map JString ns \<and> list_all (\<lambda>n. trim n \<noteq> []) ns" by (rule exI)
next
  assume "\<exists>ns. args = map JString ns \<and> list_all (\<lambda>n. trim n \<noteq> []) ns"
  then show "list_all valid_name args" by (elim exE conjE) simp
qed

lemma new_flags_Inr:
  assumes "new_flags u cls args = Inr s"
  obtains ns where "args = map JString ns" "ns \<noteq> []" "length ns \<le> static_MAX_FLAGS cls"
    "distinct ns" "list_all (\<lambda>n. trim n \<noteq> []) ns" "flagList s = ns"
    "\<forall>n\<in>set ns. accessors s n \<noteq> None"
proof -
  from assms obtain t t1 where len: "args \<noteq> []" "length args \<le> static_MAX_FLAGS cls"
    and t: "addFlags args BaseFlags_fields = Inr t"
    and t1: "init_field u ''MAX_FLAGS'' t (t\<lparr>MAX_FLAGS := Some (static_MAX_FLAGS cls)\<rparr>) = Inr t1"
    and s: "init_field u ''MAX_VALUE'' t1 (t1\<lparr>MAX_VALUE := Some (static_MAX_VALUE cls)\<rparr>) = Inr s"
    by (auto simp add: new_flags_def BaseFlags_constructor_def split: if_splits sum.splits)
  from addFlags_Inr [OF t] obtain ns where ns: "args = map JString ns"
    "list_all (\<lambda>n. trim n \<noteq> []) ns" "flagList t = ns" "distinct ns"
    "\<forall>n. n \<in> set ns \<longrightarrow> accessors t n \<noteq> None"
    by (auto simp add: BaseFlags_fields_def)
  have a: "flagList t1 = flagList t" "accessors t1 = accessors t"
    using t1 by (auto intro: init_field_Inr)
  have b: "flagList s = flagList t1" "accessors s = accessors t1"
    using s by (auto intro: init_field_Inr)
  show thesis
    by (rule that [of ns]) (use ns len a b in auto)
qed

lemma new_flags_fails:
  assumes "args = [] \<or> static_MAX_FLAGS cls < length args \<or> \<not> distinct args \<or> \<not> list_all valid_name args"
  shows "\<exists>e. new_flags u cls args = Inl e"
proof (cases "new_flags u cls args")
  case (Inl e)
  then show ?thesis by simp
next
  case (Inr s)
  then obtain ns where "args = map JString ns" "ns \<noteq> []" "length ns \<le> static_MAX_FLAGS cls"
    "distinct ns" "list_all (\<lambda>n. trim n \<noteq> []) ns"
    by (rule new_flags_Inr)
  with assms show ?thesis
    by (auto simp add: distinct_map inj_JString [THEN inj_on_subset])
qed

text \<open>Construction from fresh names.\<close>

lemma fresh_add_accessor:
  "fresh s \<Longrightarrow> fresh_name n \<Longrightarrow>
     fresh (s\<lparr>nextIndex := a, flagList := b, flagIndices := c, accessors := (accessors s)(n \<mapsto> i)\<rparr>)"
  by (auto simp add: fresh_def fresh_name_def list_all_iff)

lemma addFlags_append:
  assumes "fresh s" "MAX_FLAGS s = None" "list_all (\<lambda>n. trim n \<noteq> []) ns"
    "list_all fresh_name ns" "distinct (flagList s @ ns)"
  shows "addFlags (map JString ns) s =
     Inr (s\<lparr>nextIndex := nextIndex s + length ns,
            flagList := flagList s @ ns,
            flagIndices := flagIndices s ++ map_of (zip ns [nextIndex s..<nextIndex s + length ns]),
            accessors := accessors s ++ map_of (zip ns [nextIndex s..<nextIndex s + length ns])\<rparr>)"
  using assms
proof (induction ns arbitrary: s)
  case Nil
  then show ?case by simp
next
  case (Cons n ns)
  let ?s' = "s\<lparr>nextIndex := nextIndex s + 1, flagList := flagList s @ [n],
                 flagIndices := (flagIndices s)(n \<mapsto> nextIndex s),
                 accessors := (accessors s)(n \<mapsto> nextIndex s)\<rparr>"
  from Cons.prems have step: "addFlag (JString n) s = Inr ?s'"
    by (simp add: fresh_addFlag)
  have zip: "zip (n # ns) [nextIndex s..<nextIndex s + length (n # ns)] =
      (n, nextIndex s) # zip ns [Suc (nextIndex s)..<Suc (nextIndex s) + length ns]"
    by (subst upt_rec) simp
  have notin: "n \<notin> set ns" using Cons.prems by simp
  have fr: "fresh ?s'" using Cons.prems by (intro fresh_add_accessor) simp_all
  have "addFlags (map JString ns) ?s' = Inr (?s'\<lparr>nextIndex := nextIndex ?s' + length ns,
            flagList := flagList ?s' @ ns,
            flagIndices := flagIndices ?s' ++ map_of (zip ns [nextIndex ?s'..<nextIndex ?s' + length ns]),
            accessors := accessors ?s' ++ map_of (zip ns [nextIndex ?s'..<nextIndex ?s' + length ns])\<rparr>)"
    using fr Cons.prems by (intro Cons.IH) simp_all
  moreover have "m(n \<mapsto> nextIndex s) ++ map_of (zip ns [Suc (nextIndex s)..<Suc (nextIndex s) + length ns])
      = m ++ map_of (zip (n # ns) [nextIndex s..<nextIndex s + length (n # ns)])" for m :: "js_string \<rightharpoonup> nat"
    using notin unfolding zip
    by (auto simp add: fun_eq_iff map_add_def split: option.split dest: map_of_SomeD set_zip_leftD)
  ultimately show ?case
    using step by simp
qed

lemma fresh_BaseFlags_fields [simp]: "fresh BaseFlags_fields"
  by (simp add: fresh_def BaseFlags_fields_def list_all_iff)

lemma dom_constructed: "accessors (constructed cls ns) n \<noteq> None \<longleftrightarrow> n \<in> set ns"
proof -
  have "map_of (zip ns [0..<length ns]) n = None \<longleftrightarrow> n \<notin> set ns"
    by simp
  then show ?thesis by (simp add: constructed_def)
qed

lemma fresh_constructed: "list_all fresh_name ns \<Longrightarrow> fresh (constructed cls ns)"
  unfolding fresh_def list_all_iff
proof
  fix m assume a: "\<forall>n\<in>set ns. fresh_name n" and m: "m \<in> set member_names"
  then have "m \<notin> set ns" by (auto simp add: fresh_name_def)
  then show "accessors (constructed cls ns) m = None"
    using dom_constructed [of cls ns m] by simp
qed

lemma init_field_fresh: "accessors s (lit f) = None \<Longrightarrow> init_field u f s w = Inr w"
  by (simp add: init_field_def)

lemma new_flags_success:
  assumes "ns \<noteq> []" "length ns \<le> static_MAX_FLAGS cls" "distinct ns"
    "list_all (\<lambda>n. trim n \<noteq> []) ns" "list_all fresh_name ns"
  shows "new_flags u cls (map JString ns) = Inr (constructed cls ns)"
proof -
  define t where "t = BaseFlags_fields\<lparr>nextIndex := nextIndex BaseFlags_fields + length ns,
            flagList := flagList BaseFlags_fields @ ns,
            flagIndices := flagIndices BaseFlags_fields ++
              map_of (zip ns [nextIndex BaseFlags_fields..<nextIndex BaseFlags_fields + length ns]),
            accessors := accessors BaseFlags_fields ++
              map_of (zip ns [nextIndex BaseFlags_fields..<nextIndex BaseFlags_fields + length ns])\<rparr>"
  have add: "addFlags (map JString ns) BaseFlags_fields = Inr t"
    unfolding t_def using assms fresh_BaseFlags_fields
    by (intro addFlags_append) (simp_all add: BaseFlags_fields_def)
  have t: "t\<lparr>MAX_FLAGS := Some (static_MAX_FLAGS cls), MAX_VALUE := Some (static_MAX_VALUE cls)\<rparr> =
      constructed cls ns"
    by (simp add: t_def constructed_def BaseFlags_fields_def)
  have "fresh (constructed cls ns)" using assms(5) by (rule fresh_constructed)
  then have "fresh t" unfolding t [symmetric] by (simp add: fresh_def)
  then have acc: "accessors t (lit ''MAX_FLAGS'') = None" "accessors t (lit ''MAX_VALUE'') = None"
    by (rule fresh_accessors)+
  have i1: "init_field u ''MAX_FLAGS'' t (t\<lparr>MAX_FLAGS := Some (static_MAX_FLAGS cls)\<rparr>) =
      Inr (t\<lparr>MAX_FLAGS := Some (static_MAX_FLAGS cls)\<rparr>)"
    using acc(1) by (rule init_field_fresh)
  have i2: "init_field u ''MAX_VALUE'' (t\<lparr>MAX_FLAGS := Some (static_MAX_FLAGS cls)\<rparr>)
        (t\<lparr>MAX_FLAGS := Some (static_MAX_FLAGS cls), MAX_VALUE := Some (static_MAX_VALUE cls)\<rparr>) =
      Inr (t\<lparr>MAX_FLAGS := Some (static_MAX_FLAGS cls), MAX_VALUE := Some (static_MAX_VALUE cls)\<rparr>)"
    using acc(2) by (intro init_field_fresh) simp
  have c: "(static_MAX_FLAGS cls < length (map JString ns)) = False"
    "(length (map JString ns) = 0) = False"
    using assms(1,2) by simp_all
  show ?thesis
    using i2 by (simp only: new_flags_def BaseFlags_constructor_def c if_False add sum.case i1 t)
qed

section \<open>Reachable fresh instances\<close>

lemma new_flags_Inr_constructed:
  assumes "new_flags u cls args = Inr s" "fresh s"
  obtains ns where "args = map JString ns" "ns \<noteq> []" "length ns \<le> static_MAX_FLAGS cls"
    "distinct ns" "list_all (\<lambda>n. trim n \<noteq> []) ns" "list_all fresh_name ns"
    "s = constructed cls ns"
proof -
  from assms(1) obtain ns where ns: "args = map JString ns" "ns \<noteq> []"
    "length ns \<le> static_MAX_FLAGS cls" "distinct ns" "list_all (\<lambda>n. trim n \<noteq> []) ns"
    "\<forall>n\<in>set ns. accessors s n \<noteq> None"
    by (rule new_flags_Inr)
  have fr: "list_all fresh_name ns"
    unfolding list_all_iff fresh_name_def
  proof
    fix n assume "n \<in> set ns"
    with ns(6) have "accessors s n \<noteq> None" by simp
    with assms(2) show "n \<notin> set member_names" by (auto simp add: fresh_def list_all_iff)
  qed
  from new_flags_success [OF ns(2-5) fr, of u] assms(1) ns(1) have "s = constructed cls ns"
    by simp
  with ns fr show thesis by (rule_tac that)
qed

lemma wf_constructed:
  assumes "ns \<noteq> []" "length ns \<le> static_MAX_FLAGS cls" "distinct ns"
    "list_all (\<lambda>n. trim n \<noteq> []) ns" "list_all fresh_name ns"
  shows "wf_registry cls (constructed cls ns)"
  using assms by (simp add: wf_registry_def constructed_def)

lemma reachable_same_registry_cases:
  assumes "reachable cls s"
  shows "fresh s \<longrightarrow> (\<exists>ns. ns \<noteq> [] \<and> length ns \<le> static_MAX_FLAGS cls \<and> distinct ns \<and>
     list_all (\<lambda>n. trim n \<noteq> []) ns \<and> list_all fresh_name ns \<and>
     same_registry (constructed cls ns) s)"
  using assms
proof (induction rule: reachable.induct)
  case (r_new u flagNames s)
  then show ?case by (auto elim!: new_flags_Inr_constructed)
next
  case (r_setFlag s name v)
  then show ?case
    by (simp only: same_registry_fresh [OF setFlag_same])
       (blast intro: same_registry_trans setFlag_same)
next
  case (r_toggleFlag s name)
  then show ?case
    by (simp only: same_registry_fresh [OF toggleFlag_same])
       (blast intro: same_registry_trans toggleFlag_same)
next
  case (r_setFlags s obj)
  then show ?case
    by (simp only: same_registry_fresh [OF setFlags_same])
       (blast intro: same_registry_trans setFlags_same)
next
  case (r_toggleFlags s names)
  then show ?case
    by (simp only: same_registry_fresh [OF toggleFlags_same])
       (blast intro: same_registry_trans toggleFlags_same)
next
  case (r_fromValue s v)
  then show ?case
    by (simp only: same_registry_fresh [OF fromValue_same])
       (blast intro: same_registry_trans fromValue_same)
next
  case (r_set_property s name v r)
  from r_set_property.hyps(2) have st: "same_registry s (snd r)" by (rule set_property_same)
  from r_set_property.IH show ?case
    by (simp only: same_registry_fresh [OF st])
       (blast intro: same_registry_trans st)
qed

lemma reachable_wf: "reachable cls s \<Longrightarrow> fresh s \<Longrightarrow> wf_registry cls s"
  using reachable_same_registry_cases [of cls s]
  by (auto simp add: same_registry_wf wf_constructed)

lemma wf_index:
  assumes "wf_registry cls s" "flagIndices s n = Some i"
  shows "i < length (flagList s)" "flagList s ! i = n" "i < 32"
proof -
  from assms have "(n, i) \<in> set (zip (flagList s) [0..<length (flagList s)])"
    by (auto simp add: wf_registry_def dest: map_of_SomeD)
  then obtain k where k: "flagList s ! k = n" "[0..<length (flagList s)] ! k = i"
    "k < length (flagList s)"
    by (auto simp add: in_set_zip)
  then show "i < length (flagList s)" "flagList s ! i = n" by simp_all
  moreover have "static_MAX_FLAGS cls \<le> 32" by (cases cls) simp_all
  ultimately show "i < 32" using assms(1) by (simp add: wf_registry_def)
qed

lemma wf_index_inj:
  assumes "wf_registry cls s" "flagIndices s n = Some i" "flagIndices s m = Some i"
  shows "n = m"
  using wf_index(2) [OF assms(1,2)] wf_index(2) [OF assms(1,3)] by simp

lemma wf_registered: "wf_registry cls s \<Longrightarrow> registered s n \<longleftrightarrow> n \<in> set (flagList s)"
proof -
  assume "wf_registry cls s"
  then have "flagIndices s n = None \<longleftrightarrow> n \<notin> set (flagList s)"
    by (simp add: wf_registry_def)
  then show ?thesis by (simp add: registered_def)
qed

lemma wf_index_nth:
  assumes "wf_registry cls s" "i < length (flagList s)"
  shows "flagIndices s (flagList s ! i) = Some i"
  using assms by (simp add: wf_registry_def map_of_zip_nth)

text \<open>The bit of a registered flag after toggling or setting another flag.\<close>

lemma bit_of_with_bit_other:
  assumes "wf_registry cls s" "flagIndices s n = Some i" "flagIndices s m = Some j" "n \<noteq> m"
  shows "bit_of (with_bit i b s) j = bit_of s j"
proof -
  have "i < 32" "j < 32" "i \<noteq> j"
    using assms wf_index(3) wf_index_inj by blast+
  then show ?thesis by (simp add: bit_of_with_bit)
qed

lemma bit_of_with_bit_same: "bit_of (with_bit i b s) i = b"
  by (simp add: bit_of_with_bit)

section \<open>Toggling several flags\<close>

lemma fresh_toggleFlags_loop_Cons:
  assumes "fresh s"
  shows "toggleFlags_loop (n # ns) s =
     (if registered s n
      then toggleFlags_loop ns (with_bit (the (flagIndices s n)) (\<not> bit_of s (the (flagIndices s n))) s)
      else toggleFlags_loop ns s)"
  using assms by (simp add: fresh_hasFlag fresh_toggleFlag)

lemma fresh_toggleFlags: "fresh s \<Longrightarrow> toggleFlags ns s = toggleFlags_loop ns s"
  by (simp add: toggleFlags_def fresh_shadowed)

lemma toggleFlags_loop_no_throw: "fresh s \<Longrightarrow> fst (toggleFlags_loop names s) = None"
proof (induction names arbitrary: s)
  case Nil
  show ?case by simp
next
  case (Cons n names)
  then show ?case
    by (simp only: fresh_toggleFlags_loop_Cons [OF Cons.prems]) (simp add: Cons.IH)
qed

lemma toggleFlags_loop_filter:
  "fresh s \<Longrightarrow> toggleFlags_loop names s = toggleFlags_loop (filter (registered s) names) s"
proof (induction names arbitrary: s)
  case Nil
  show ?case by simp
next
  case (Cons n names)
  show ?case
  proof (cases "registered s n")
    case True
    let ?t = "with_bit (the (flagIndices s n)) (\<not> bit_of s (the (flagIndices s n))) s"
    have r: "registered ?t = registered s"
      by (simp add: fun_eq_iff same_registry_registered [OF with_bit_same])
    have "fresh ?t" using Cons.prems by simp
    from Cons.IH [OF this] r True show ?thesis
      by (simp only: fresh_toggleFlags_loop_Cons [OF Cons.prems] filter.simps if_True)
  next
    case False
    with Cons.IH [OF Cons.prems] show ?thesis
      by (simp only: fresh_toggleFlags_loop_Cons [OF Cons.prems] filter.simps if_False)
  qed
qed

lemma toggleFlags_loop_effect:
  assumes "wf_registry cls s" "fresh s" "flagIndices s m = Some j"
  shows "bit_of (snd (toggleFlags_loop names s)) j \<longleftrightarrow> (bit_of s j \<noteq> odd (count_list names m))"
  using assms
proof (induction names arbitrary: s)
  case Nil
  show ?case by simp
next
  case (Cons n names)
  show ?case
  proof (cases "registered s n")
    case True
    then obtain i where i: "flagIndices s n = Some i" by (auto simp add: registered_def)
    let ?t = "with_bit i (\<not> bit_of s i) s"
    have t: "toggleFlags_loop (n # names) s = toggleFlags_loop names ?t"
      using True i by (simp only: fresh_toggleFlags_loop_Cons [OF Cons.prems(2)]) simp
    have wf: "wf_registry cls ?t" "fresh ?t" "flagIndices ?t m = Some j"
      using Cons.prems same_registry_wf [OF with_bit_same] same_registry_fields(3) [OF with_bit_same]
      by simp_all
    have "bit_of ?t j \<longleftrightarrow> (if n = m then \<not> bit_of s j else bit_of s j)"
    proof (cases "n = m")
      case True
      with i Cons.prems(3) have "i = j" by simp
      then show ?thesis using True by (simp add: bit_of_with_bit_same)
    next
      case False
      then show ?thesis
        using bit_of_with_bit_other [OF Cons.prems(1) i Cons.prems(3)] by simp
    qed
    with Cons.IH [OF wf] t show ?thesis by auto
  next
    case False
    then have "n \<noteq> m" using Cons.prems(3) by (auto simp add: registered_def)
    with False Cons.IH [OF Cons.prems] show ?thesis
      by (simp only: fresh_toggleFlags_loop_Cons [OF Cons.prems(2)]) simp
  qed
qed

section \<open>Failing constructions\<close>

lemma fresh_addFlag_Inr:
  assumes "fresh s" "MAX_FLAGS s = None" "fresh_arg a" "addFlag a s = Inr t"
  obtains n where "a = JString n" "trim n \<noteq> []" "n \<notin> set (flagList s)"
    "flagList t = flagList s @ [n]" "MAX_FLAGS t = None" "fresh t"
proof -
  from assms(4) obtain n where n: "a = JString n"
    by (cases a) (simp_all add: fresh_addFlag [OF assms(1,2)])
  with assms(4) have *: "trim n \<noteq> []" "n \<notin> set (flagList s)"
    "t = s\<lparr>nextIndex := nextIndex s + 1, flagList := flagList s @ [n],
           flagIndices := (flagIndices s)(n \<mapsto> nextIndex s),
           accessors := (accessors s)(n \<mapsto> nextIndex s)\<rparr>"
    by (auto simp add: fresh_addFlag [OF assms(1,2)] split: if_splits)
  have "fresh t" unfolding *(3) using assms(1,3) n by (intro fresh_add_accessor) simp_all
  with n * assms(2) show thesis by (intro that [of n]) simp_all
qed

lemma fresh_addFlag_Inl:
  assumes "fresh s" "MAX_FLAGS s = None" "addFlag a s = Inl e"
  shows "(e = EmptyFlagName \<and> \<not> valid_name a) \<or>
         (\<exists>n. e = DuplicateFlag n \<and> a = JString n \<and> valid_name a \<and> n \<in> set (flagList s))"
  using assms(3)
  by (cases a) (auto simp add: fresh_addFlag [OF assms(1,2)] split: if_splits)

lemma addFlags_Inl:
  assumes "fresh s" "MAX_FLAGS s = None" "list_all fresh_arg args" "addFlags args s = Inl e"
  shows "\<exists>pre a post. args = pre @ a # post \<and> list_all valid_name pre \<and> distinct pre \<and>
           (\<forall>n. JString n \<in> set pre \<longrightarrow> n \<notin> set (flagList s)) \<and>
           ((\<not> valid_name a \<and> e = EmptyFlagName) \<or>
            (\<exists>n. a = JString n \<and> valid_name a \<and>
                 (n \<in> set (flagList s) \<or> a \<in> set pre) \<and> e = DuplicateFlag n))"
  using assms
proof (induction args arbitrary: s)
  case Nil
  then show ?case by simp
next
  case (Cons a args)
  show ?case
  proof (cases "addFlag a s")
    case (Inl e')
    with Cons.prems have e: "e' = e" by simp
    from fresh_addFlag_Inl [OF Cons.prems(1,2) Inl] e
    have "a # args = [] @ a # args \<and> list_all valid_name [] \<and> distinct [] \<and>
          (\<forall>n. JString n \<in> set [] \<longrightarrow> n \<notin> set (flagList s)) \<and>
          ((\<not> valid_name a \<and> e = EmptyFlagName) \<or>
          (\<exists>n. a = JString n \<and> valid_name a \<and> (n \<in> set (flagList s) \<or> a \<in> set []) \<and> e = DuplicateFlag n))"
      by auto
    then show ?thesis by (intro exI)
  next
    case (Inr t)
    with Cons.prems have t: "addFlags args t = Inl e" by simp
    from Cons.prems(3) have fa: "fresh_arg a" "list_all fresh_arg args" by simp_all
    from Cons.prems(1,2) fa(1) Inr obtain n where n: "a = JString n" "trim n \<noteq> []"
      "n \<notin> set (flagList s)" "flagList t = flagList s @ [n]" "MAX_FLAGS t = None" "fresh t"
      by (rule fresh_addFlag_Inr)
    from Cons.IH [OF n(6,5) fa(2) t] obtain pre b post where
      p: "args = pre @ b # post" "list_all valid_name pre" "distinct pre"
        "\<forall>m. JString m \<in> set pre \<longrightarrow> m \<notin> set (flagList t)"
        "(\<not> valid_name b \<and> e = EmptyFlagName) \<or>
         (\<exists>m. b = JString m \<and> valid_name b \<and> (m \<in> set (flagList t) \<or> b \<in> set pre) \<and> e = DuplicateFlag m)"
      by auto
    have "a # args = (a # pre) @ b # post \<and> list_all valid_name (a # pre) \<and> distinct (a # pre) \<and>
        (\<forall>m. JString m \<in> set (a # pre) \<longrightarrow> m \<notin> set (flagList s)) \<and>
        ((\<not> valid_name b \<and> e = EmptyFlagName) \<or>
         (\<exists>m. b = JString m \<and> valid_name b \<and> (m \<in> set (flagList s) \<or> b \<in> set (a # pre)) \<and> e = DuplicateFlag m))"
      using p n by auto
    then show ?thesis by (intro exI)
  qed
qed

lemma new_flags_Inl:
  assumes "args \<noteq> []" "length args \<le> static_MAX_FLAGS cls" "list_all fresh_arg args"
    "new_flags u cls args = Inl e"
  shows "\<exists>pre a post. args = pre @ a # post \<and> list_all valid_name pre \<and> distinct pre \<and>
           ((\<not> valid_name a \<and> e = EmptyFlagName) \<or>
            (\<exists>n. a = JString n \<and> valid_name a \<and> a \<in> set pre \<and> e = DuplicateFlag n))"
proof -
  have add: "addFlags args BaseFlags_fields = Inl e"
  proof (cases "addFlags args BaseFlags_fields")
    case (Inl e')
    with assms show ?thesis
      by (simp add: new_flags_def BaseFlags_constructor_def)
  next
    case (Inr t)
    from addFlags_Inr [OF Inr] obtain ns where ns: "args = map JString ns"
      "list_all (\<lambda>n. trim n \<noteq> []) ns" "distinct ns"
      by (auto simp add: BaseFlags_fields_def)
    with assms(1-3) have "ns \<noteq> []" "length ns \<le> static_MAX_FLAGS cls" "list_all fresh_name ns"
      by simp_all
    from new_flags_success [OF this(1,2) ns(3,2) this(3), of u] assms(4) ns(1)
    show ?thesis by simp
  qed
  have b: "MAX_FLAGS BaseFlags_fields = None" "flagList BaseFlags_fields = []"
    by (simp_all add: BaseFlags_fields_def)
  from addFlags_Inl [OF fresh_BaseFlags_fields b(1) assms(3) add] show ?thesis
    by (simp add: b(2))
qed

lemma new_flags_empty: "new_flags u cls [] = Inl NoFlagNames"
  by (simp add: new_flags_def BaseFlags_constructor_def)

lemma new_flags_too_long:
  "static_MAX_FLAGS cls < length args \<Longrightarrow>
     new_flags u cls args = Inl (TooManyFlags (static_MAX_FLAGS cls))"
  by (simp add: new_flags_def)

lemma new_flags_error_kind:
  assumes "list_all fresh_arg args" "new_flags u cls args = Inl e"
  shows "kind e = Some InvalidArgument \<or> kind e = Some DuplicateName"
proof (cases "args = [] \<or> static_MAX_FLAGS cls < length args")
  case True
  with assms(2) show ?thesis
    by (auto simp add: new_flags_empty new_flags_too_long)
next
  case False
  with new_flags_Inl [of args cls u e] assms show ?thesis by auto
qed

lemma new_flags_duplicate:
  assumes "args \<noteq> []" "length args \<le> static_MAX_FLAGS cls" "list_all fresh_arg args"
    "list_all valid_name args" "\<not> distinct args"
  shows "\<exists>n. new_flags u cls args = Inl (DuplicateFlag n) \<and> 2 \<le> count_list args (JString n)"
proof -
  from new_flags_fails [of args cls u] assms obtain e where e: "new_flags u cls args = Inl e"
    by auto
  from new_flags_Inl [OF assms(1-3) e] obtain pre a post where
    p: "args = pre @ a # post" "list_all valid_name pre" "distinct pre"
      "(\<not> valid_name a \<and> e = EmptyFlagName) \<or>
       (\<exists>n. a = JString n \<and> valid_name a \<and> a \<in> set pre \<and> e = DuplicateFlag n)"
    by auto
  from p(1) assms(4) have "valid_name a" by simp
  with p(4) obtain n where n: "a = JString n" "a \<in> set pre" "e = DuplicateFlag n" by auto
  from n(2) have "count_list pre a \<noteq> 0" by (simp add: count_list_0_iff)
  then have "1 \<le> count_list pre a" by simp
  then have "2 \<le> count_list args a" using p(1) by simp
  with e n show ?thesis by auto
qed

lemma new_flags_invalid:
  assumes "args \<noteq> []" "length args \<le> static_MAX_FLAGS cls" "list_all fresh_arg args"
    "\<not> list_all valid_name args" "distinct (filter valid_name args)"
  shows "new_flags u cls args = Inl EmptyFlagName"
proof -
  from new_flags_fails [of args cls u] assms obtain e where e: "new_flags u cls args = Inl e"
    by auto
  from new_flags_Inl [OF assms(1-3) e] obtain pre a post where
    p: "args = pre @ a # post" "list_all valid_name pre" "distinct pre"
      "(\<not> valid_name a \<and> e = EmptyFlagName) \<or>
       (\<exists>n. a = JString n \<and> valid_name a \<and> a \<in> set pre \<and> e = DuplicateFlag n)"
    by auto
  have "\<not> (valid_name a \<and> a \<in> set pre)"
    using assms(5) p(1,2) by (auto simp add: filter_id_conv list_all_iff)
  with p(4) e show ?thesis by auto
qed

lemma bit_of_value_0: "value s = 0 \<Longrightarrow> \<not> bit_of s p"
  by (simp add: bit_of_def js_and_def)

section \<open>Counting\<close>

declare count_loop.simps [simp del]

lemma count_loop_filter:
  "fresh s \<Longrightarrow> count_loop s i c = Inr (c + length (filter (bit_of s) [i..<nextIndex s]))"
proof (induction s i c rule: count_loop.induct)
  case (1 s i c)
  show ?case
  proof (cases "i < nextIndex s")
    case True
    then have u: "[i..<nextIndex s] = i # [i + 1..<nextIndex s]"
      by (simp add: upt_conv_Cons)
    have "count_loop s (i + 1) (if bit_of s i then c + 1 else c) =
        Inr ((if bit_of s i then c + 1 else c) + length (filter (bit_of s) [i + 1..<nextIndex s]))"
      using True "1.prems" by (intro "1.IH") (simp_all add: fresh_this_nextIndex fresh_getBit)
    with True "1.prems" show ?thesis
      by (subst count_loop.simps) (simp add: fresh_this_nextIndex fresh_getBit u)
  next
    case False
    with "1.prems" show ?thesis
      by (subst count_loop.simps) (simp add: fresh_this_nextIndex)
  qed
qed

lemma count_filter:
  "fresh s \<Longrightarrow> count s = Inr (length (filter (bit_of s) [0..<nextIndex s]))"
  by (simp add: count_def count_loop_filter fresh_shadowed)

lemma count_card: "fresh s \<Longrightarrow> count s = Inr (card {i. i < nextIndex s \<and> bit_of s i})"
proof -
  assume f: "fresh s"
  have "distinct (filter (bit_of s) [0..<nextIndex s])" by simp
  then have "card (set (filter (bit_of s) [0..<nextIndex s])) =
      length (filter (bit_of s) [0..<nextIndex s])"
    by (rule distinct_card)
  moreover have "set (filter (bit_of s) [0..<nextIndex s]) = {i. i < nextIndex s \<and> bit_of s i}"
    by auto
  ultimately show ?thesis by (simp add: count_filter [OF f])
qed

lemma bit_of_int: "p < 32 \<Longrightarrow> bit_of s p \<longleftrightarrow> bit (value s) p"
  by (simp add: bit_of_bit bit_word_of_int_iff)

lemma wf_getFlag:
  assumes "wf_registry cls s" "fresh s" "i < length (flagList s)"
  shows "getFlag (flagList s ! i) s = Inr (bit_of s i)"
  using wf_index_nth [OF assms(1,3)] by (simp add: fresh_getFlag [OF assms(2)] registered_def)

lemma wf_count_names:
  assumes "wf_registry cls s" "fresh s"
  shows "count s = Inr (length (filter (\<lambda>n. getFlag n s = Inr True) (flagList s)))"
proof -
  have n: "nextIndex s = length (flagList s)" using assms by (simp add: wf_registry_def)
  have "filter (\<lambda>n. getFlag n s = Inr True) (map (\<lambda>i. flagList s ! i) [0..<length (flagList s)])
      = map (\<lambda>i. flagList s ! i) (filter (bit_of s) [0..<length (flagList s)])"
    unfolding filter_map
    by (rule arg_cong [where f = "map _"], rule filter_cong) (simp_all add: wf_getFlag [OF assms])
  then have "length (filter (\<lambda>n. getFlag n s = Inr True) (flagList s)) =
      length (filter (bit_of s) [0..<length (flagList s)])"
    by (simp add: map_nth)
  then show ?thesis by (simp add: count_filter [OF assms(2)] n)
qed

section \<open>Bulk setting\<close>

lemma fresh_setFlags_loop_Cons:
  assumes "fresh s"
  shows "setFlags_loop ((n, b) # es) s =
     (if registered s n then setFlags_loop es (with_bit (the (flagIndices s n)) b s)
      else setFlags_loop es s)"
  using assms by (simp add: fresh_hasFlag fresh_setFlag)

lemma fresh_setFlags: "fresh s \<Longrightarrow> setFlags obj s = setFlags_loop (Object_entries obj) s"
  by (simp add: setFlags_def fresh_shadowed)

lemma setFlags_loop_no_throw: "fresh s \<Longrightarrow> fst (setFlags_loop es s) = None"
proof (induction es arbitrary: s)
  case Nil
  show ?case by simp
next
  case (Cons e es)
  obtain n b where e: "e = (n, b)" by (cases e)
  from Cons show ?case
    unfolding e by (simp only: fresh_setFlags_loop_Cons [OF Cons.prems]) simp
qed

lemma setFlags_loop_filter:
  "fresh s \<Longrightarrow> setFlags_loop es s = setFlags_loop (filter (\<lambda>p. registered s (fst p)) es) s"
proof (induction es arbitrary: s)
  case Nil
  show ?case by simp
next
  case (Cons e es)
  obtain n b where e: "e = (n, b)" by (cases e)
  show ?case
  proof (cases "registered s n")
    case True
    let ?t = "with_bit (the (flagIndices s n)) b s"
    have r: "registered ?t = registered s"
      by (simp add: fun_eq_iff same_registry_registered [OF with_bit_same])
    have "fresh ?t" using Cons.prems by simp
    from Cons.IH [OF this] r True show ?thesis
      unfolding e by (simp only: fresh_setFlags_loop_Cons [OF Cons.prems] filter.simps fst_conv if_True)
  next
    case False
    with Cons.IH [OF Cons.prems] show ?thesis
      unfolding e by (simp only: fresh_setFlags_loop_Cons [OF Cons.prems] filter.simps fst_conv if_False)
  qed
qed

lemma setFlags_loop_effect:
  assumes "wf_registry cls s" "fresh s" "distinct (map fst es)" "flagIndices s m = Some j"
  shows "bit_of (snd (setFlags_loop es s)) j \<longleftrightarrow>
           (case map_of es m of Some v \<Rightarrow> v | None \<Rightarrow> bit_of s j)"
  using assms
proof (induction es arbitrary: s)
  case Nil
  show ?case by simp
next
  case (Cons e es)
  obtain n b where e: "e = (n, b)" by (cases e)
  from Cons.prems(3) have d: "distinct (map fst es)" and notin: "map_of es n = None"
    by (simp_all add: e map_of_eq_None_iff)
  show ?case
  proof (cases "registered s n")
    case True
    then obtain i where i: "flagIndices s n = Some i" by (auto simp add: registered_def)
    let ?t = "with_bit i b s"
    have t: "setFlags_loop (e # es) s = setFlags_loop es ?t"
      using True i unfolding e by (simp only: fresh_setFlags_loop_Cons [OF Cons.prems(2)]) simp
    have wf: "wf_registry cls ?t" "fresh ?t" "flagIndices ?t m = Some j"
      using Cons.prems same_registry_wf [OF with_bit_same] same_registry_fields(3) [OF with_bit_same]
      by simp_all
    have "bit_of ?t j \<longleftrightarrow> (if n = m then b else bit_of s j)"
    proof (cases "n = m")
      case True
      with i Cons.prems(4) have "i = j" by simp
      then show ?thesis using True by (simp add: bit_of_with_bit_same)
    next
      case False
      then show ?thesis
        using bit_of_with_bit_other [OF Cons.prems(1) i Cons.prems(4)] by simp
    qed
    with Cons.IH [OF wf(1,2) d wf(3)] t notin show ?thesis
      by (auto simp add: e split: option.splits)
  next
    case False
    then have "n \<noteq> m" using Cons.prems(4) by (auto simp add: registered_def)
    with False Cons.IH [OF Cons.prems(1,2) d Cons.prems(4)] show ?thesis
      unfolding e by (simp only: fresh_setFlags_loop_Cons [OF Cons.prems(2)]) simp
  qed
qed

section \<open>Enumeration of own properties\<close>

lemma set_Object_entries [simp]: "set (Object_entries obj) = set obj"
  by (auto simp add: Object_entries_def)

lemma length_Object_entries [simp]: "length (Object_entries obj) = length obj"
  by (simp add: Object_entries_def sum_length_filter_compl)

lemma distinct_Object_entries [simp]: "distinct (Object_entries obj) = distinct obj"
proof
  assume "distinct (Object_entries obj)"
  then have "card (set (Object_entries obj)) = length (Object_entries obj)"
    by (rule distinct_card)
  then show "distinct obj" by (simp add: card_distinct)
next
  assume "distinct obj"
  then show "distinct (Object_entries obj)"
    by (auto simp add: Object_entries_def)
qed

lemma distinct_keys_Object_entries [simp]:
  "distinct (map fst (Object_entries obj)) = distinct (map fst obj)"
  by (simp add: distinct_map)

lemma map_of_Object_entries:
  "distinct (map fst obj) \<Longrightarrow> map_of (Object_entries obj) = map_of obj"
  by (simp add: map_of_inject_set)

lemma filter_Object_entries:
  "filter P (Object_entries obj) = Object_entries (filter P obj)"
proof -
  have c: "filter P (filter Q xs) = filter Q (filter P xs)" for Q and xs :: "(js_string \<times> bool) list"
    by (induction xs) auto
  show ?thesis
    by (simp only: Object_entries_def filter_append filter_sort c)
qed

lemma Object_entries_idem [simp]: "Object_entries (Object_entries obj) = Object_entries obj"
proof -
  let ?A = "sort_key (\<lambda>p. decimal_value (fst p)) (filter (\<lambda>p. is_array_index (fst p)) obj)"
  let ?B = "filter (\<lambda>p. \<not> is_array_index (fst p)) obj"
  have A: "filter (\<lambda>p. is_array_index (fst p)) (?A @ ?B) = ?A"
    by (auto simp add: filter_sort [symmetric] filter_id_conv filter_empty_conv)
  have B: "filter (\<lambda>p. \<not> is_array_index (fst p)) (?A @ ?B) = ?B"
    by (auto simp add: filter_id_conv filter_empty_conv)
  have "sort_key (\<lambda>p. decimal_value (fst p)) ?A = ?A"
    by (rule sort_key_id_if_sorted) simp
  with A B show ?thesis
    unfolding Object_entries_def [of "Object_entries obj"] unfolding Object_entries_def [of obj]
    by simp
qed

lemma setFlags_no_throw: "fresh s \<Longrightarrow> fst (setFlags obj s) = None"
  by (simp add: fresh_setFlags setFlags_loop_no_throw)

lemma setFlags_filter:
  "fresh s \<Longrightarrow> setFlags obj s = setFlags (filter (\<lambda>p. registered s (fst p)) obj) s"
  by (simp only: fresh_setFlags)
     (subst setFlags_loop_filter, simp_all add: filter_Object_entries)

lemma setFlags_effect:
  assumes "wf_registry cls s" "fresh s" "distinct (map fst obj)" "registered s m"
  shows "getFlag m (snd (setFlags obj s)) =
           (case map_of obj m of Some v \<Rightarrow> Inr v | None \<Rightarrow> getFlag m s)"
proof -
  from assms(4) obtain j where j: "flagIndices s m = Some j" by (auto simp add: registered_def)
  have reg: "flagIndices (snd (setFlags obj s)) = flagIndices s"
    by (rule same_registry_fields(3) [OF setFlags_same])
  have fr: "fresh (snd (setFlags obj s))"
    using assms(2) by (simp add: same_registry_fresh [OF setFlags_same])
  have "bit_of (snd (setFlags obj s)) j \<longleftrightarrow>
           (case map_of (Object_entries obj) m of Some v \<Rightarrow> v | None \<Rightarrow> bit_of s j)"
    unfolding fresh_setFlags [OF assms(2)]
    using assms(1,2) _ j by (rule setFlags_loop_effect) (simp add: assms(3))
  then show ?thesis
    using j reg assms(3)
    by (simp add: fresh_getFlag [OF fr] fresh_getFlag [OF assms(2)] registered_def
        map_of_Object_entries split: option.splits)
qed

section \<open>Objects and JSON\<close>

lemma obj_define_fresh: "k \<notin> fst ` set obj \<Longrightarrow> obj_define obj k v = obj @ [(k, v)]"
  by (induction obj) auto

lemma obj_set_fresh:
  "k \<noteq> lit ''__proto__'' \<Longrightarrow> k \<notin> fst ` set obj \<Longrightarrow> obj_set obj k v = obj @ [(k, v)]"
  by (simp add: obj_set_def obj_define_fresh)

lemma fresh_name_proto: "fresh_name n \<Longrightarrow> n \<noteq> lit ''__proto__''"
  by (auto simp add: fresh_name_def member_names_def)

lemma JSON_parse_members:
  assumes "distinct (map fst (acc @ ms))"
  shows "foldl (\<lambda>obj (k, v). obj_define obj k v) acc ms = acc @ ms"
  using assms
proof (induction ms arbitrary: acc)
  case Nil
  show ?case by simp
next
  case (Cons m ms)
  obtain k v where m: "m = (k, v)" by (cases m)
  from Cons.prems have "k \<notin> fst ` set acc" by (auto simp add: m)
  then have "obj_define acc k v = acc @ [m]" by (simp add: obj_define_fresh m)
  moreover have "distinct (map fst ((acc @ [m]) @ ms))" using Cons.prems by simp
  ultimately show ?case using Cons.IH [of "acc @ [m]"] by (simp add: m)
qed

lemma toObject_reduce_wf:
  assumes "fresh s" "\<forall>n\<in>set names. registered s n \<and> fresh_name n"
    "distinct (map fst acc @ names)"
  shows "toObject_reduce s names acc =
           Inr (acc @ map (\<lambda>n. (n, getFlag n s = Inr True)) names)"
  using assms(2,3)
proof (induction names arbitrary: acc)
  case Nil
  show ?case by simp
next
  case (Cons n names)
  from Cons.prems(1) have h: "registered s n" "fresh_name n" by simp_all
  then have g: "getFlag n s = Inr (getFlag n s = Inr True)"
    by (simp add: fresh_getFlag [OF assms(1)])
  from Cons.prems(2) have "n \<notin> fst ` set acc" by auto
  with h(2) have o: "obj_set acc n (getFlag n s = Inr True) = acc @ [(n, getFlag n s = Inr True)]"
    by (intro obj_set_fresh fresh_name_proto)
  have "toObject_reduce s (n # names) acc =
      toObject_reduce s names (acc @ [(n, getFlag n s = Inr True)])"
    by (subst toObject_reduce.simps, subst g) (simp add: o)
  also have "\<dots> = Inr ((acc @ [(n, getFlag n s = Inr True)]) @
      map (\<lambda>n. (n, getFlag n s = Inr True)) names)"
    using Cons.prems by (intro Cons.IH) simp_all
  finally show ?case by simp
qed

lemma toObject_wf:
  assumes "wf_registry cls s" "fresh s"
  shows "toObject s = Inr (map (\<lambda>n. (n, getFlag n s = Inr True)) (flagList s))"
proof -
  have "\<forall>n\<in>set (flagList s). registered s n \<and> fresh_name n"
    using assms(1) by (simp add: wf_registered) (simp add: wf_registry_def list_all_iff)
  moreover have "distinct (map fst [] @ flagList s)" using assms by (simp add: wf_registry_def)
  ultimately have "toObject_reduce s (flagList s) [] =
      Inr ([] @ map (\<lambda>n. (n, getFlag n s = Inr True)) (flagList s))"
    by (rule toObject_reduce_wf [OF assms(2)])
  then show ?thesis by (simp add: toObject_def fresh_shadowed [OF assms(2)])
qed

lemma wf_value_update [simp]: "wf_registry cls (s\<lparr>value := v\<rparr>) = wf_registry cls s"
  by (simp add: wf_registry_def)

section \<open>The range of the stored value\<close>

lemma sint_w32_small:
  "- (2 ^ 31) \<le> x \<Longrightarrow> x < 2 ^ 31 \<Longrightarrow> sint (word_of_int x :: 32 word) = x"
  by (simp add: sint_sbintrunc' signed_take_bit_int_eq_self)

lemma with_bit_small:
  assumes "0 \<le> value s" "value s < 2 ^ k" "p < k" "k \<le> 31"
  shows "0 \<le> value (with_bit p b s) \<and> value (with_bit p b s) < 2 ^ k"
proof -
  let ?v = "value s"
  have p: "p mod 32 = p" using assms(3,4) by simp
  have k: "(2::int) ^ k \<le> 2 ^ 31" using assms(4) by (intro power_increasing) simp_all
  have pk: "(2::int) ^ p < 2 ^ k" using assms(3) by (intro power_strict_increasing) simp_all
  show ?thesis
  proof (cases b)
    case True
    let ?x = "?v OR 2 ^ p"
    have x: "0 \<le> ?x" "?x < 2 ^ k"
      using assms(1,2) pk by (simp_all add: OR_upper)
    have "value (with_bit p b s) = sint (word_of_int ?x :: 32 word)"
      using True by (simp add: with_bit_def js_or_def js_shl_def p of_int_or_eq)
    also have "\<dots> = ?x"
    proof (rule sint_w32_small)
      show "- (2 ^ 31) \<le> ?x" using x(1) by (rule order_trans [rotated]) simp
      show "?x < 2 ^ 31" using x(2) k by (rule less_le_trans)
    qed
    finally show ?thesis using x by simp
  next
    case False
    let ?x = "?v AND NOT (2 ^ p)"
    have x: "0 \<le> ?x" "?x \<le> ?v"
      using assms(1) by simp_all
    have "value (with_bit p b s) = sint (word_of_int ?x :: 32 word)"
      using False by (simp add: with_bit_def js_and_def js_not_def js_shl_def p of_int_and_eq of_int_not_eq)
    also have "\<dots> = ?x"
    proof (rule sint_w32_small)
      show "- (2 ^ 31) \<le> ?x" using x(1) by (rule order_trans [rotated]) simp
      have "?x < 2 ^ k" using x(2) assms(2) by (rule le_less_trans)
      then show "?x < 2 ^ 31" using k by (rule less_le_trans)
    qed
    finally show ?thesis using x assms(2) by simp
  qed
qed

lemma static_MAX_VALUE_power: "static_MAX_VALUE cls = 2 ^ static_MAX_FLAGS cls - 1"
  by (cases cls) simp_all

lemma with_bit_in_range:
  assumes "cls \<noteq> LongFlags" "wf_registry cls s" "in_range cls s" "flagIndices s n = Some i"
  shows "in_range cls (with_bit i b s)"
proof -
  have "i < static_MAX_FLAGS cls"
    using wf_index(1) [OF assms(2,4)] assms(2) by (simp add: wf_registry_def)
  moreover have "static_MAX_FLAGS cls \<le> 31" using assms(1) by (cases cls) simp_all
  moreover have "0 \<le> value s" "value s < 2 ^ static_MAX_FLAGS cls"
    using assms(3) by (simp_all add: in_range_def static_MAX_VALUE_power)
  ultimately have "0 \<le> value (with_bit i b s) \<and> value (with_bit i b s) < 2 ^ static_MAX_FLAGS cls"
    by (intro with_bit_small)
  then show ?thesis by (simp add: in_range_def static_MAX_VALUE_power)
qed

lemma setFlags_loop_in_range:
  assumes "cls \<noteq> LongFlags" "wf_registry cls s" "fresh s" "in_range cls s"
  shows "in_range cls (snd (setFlags_loop es s))"
  using assms(2,3,4)
proof (induction es arbitrary: s)
  case Nil
  then show ?case by simp
next
  case (Cons e es)
  obtain n b where e: "e = (n, b)" by (cases e)
  show ?case
  proof (cases "registered s n")
    case True
    then obtain i where i: "flagIndices s n = Some i" by (auto simp add: registered_def)
    let ?t = "with_bit i b s"
    have "setFlags_loop (e # es) s = setFlags_loop es ?t"
      using True i unfolding e by (simp only: fresh_setFlags_loop_Cons [OF Cons.prems(2)]) simp
    moreover have "wf_registry cls ?t" using Cons.prems(1) by (simp add: same_registry_wf [OF with_bit_same])
    moreover have "fresh ?t" using Cons.prems(2) by simp
    moreover have "in_range cls ?t" using assms(1) Cons.prems(1,3) i by (rule with_bit_in_range)
    ultimately show ?thesis using Cons.IH [of ?t] by simp
  next
    case False
    then show ?thesis using Cons
      unfolding e by (simp only: fresh_setFlags_loop_Cons [OF Cons.prems(2)]) simp
  qed
qed

lemma toggleFlags_loop_in_range:
  assumes "cls \<noteq> LongFlags" "wf_registry cls s" "fresh s" "in_range cls s"
  shows "in_range cls (snd (toggleFlags_loop names s))"
  using assms(2,3,4)
proof (induction names arbitrary: s)
  case Nil
  then show ?case by simp
next
  case (Cons n names)
  show ?case
  proof (cases "registered s n")
    case True
    then obtain i where i: "flagIndices s n = Some i" by (auto simp add: registered_def)
    let ?t = "with_bit i (\<not> bit_of s i) s"
    have "toggleFlags_loop (n # names) s = toggleFlags_loop names ?t"
      using True i by (simp only: fresh_toggleFlags_loop_Cons [OF Cons.prems(2)]) simp
    moreover have "wf_registry cls ?t" using Cons.prems(1) by (simp add: same_registry_wf [OF with_bit_same])
    moreover have "fresh ?t" using Cons.prems(2) by simp
    moreover have "in_range cls ?t" using assms(1) Cons.prems(1,3) i by (rule with_bit_in_range)
    ultimately show ?thesis using Cons.IH [of ?t] by simp
  next
    case False
    then show ?thesis using Cons
      by (simp only: fresh_toggleFlags_loop_Cons [OF Cons.prems(2)]) simp
  qed
qed

lemma reachable_in_range_aux:
  assumes "reachable cls s" "cls \<noteq> LongFlags"
  shows "fresh s \<longrightarrow> in_range cls s"
  using assms(1)
proof (induction rule: reachable.induct)
  case (r_new u flagNames s)
  show ?case
  proof
    assume "fresh s"
    with r_new obtain ns where "s = constructed cls ns" by (rule new_flags_Inr_constructed)
    then show "in_range cls s" by (cases cls) (simp_all add: in_range_def constructed_def)
  qed
next
  case (r_setFlag s name v)
  show ?case
  proof
    assume "fresh (snd (setFlag name v s))"
    then have fr: "fresh s" by (simp add: same_registry_fresh [OF setFlag_same])
    with r_setFlag have wf: "wf_registry cls s" and ir: "in_range cls s"
      by (simp_all add: reachable_wf)
    show "in_range cls (snd (setFlag name v s))"
    proof (cases "registered s name")
      case True
      then obtain i where i: "flagIndices s name = Some i" by (auto simp add: registered_def)
      from with_bit_in_range [OF assms(2) wf ir i] True i show ?thesis
        by (simp add: fresh_setFlag [OF fr])
    next
      case False
      then show ?thesis using ir by (simp add: fresh_setFlag [OF fr])
    qed
  qed
next
  case (r_toggleFlag s name)
  show ?case
  proof
    assume "fresh (snd (toggleFlag name s))"
    then have fr: "fresh s" by (simp add: same_registry_fresh [OF toggleFlag_same])
    with r_toggleFlag have wf: "wf_registry cls s" and ir: "in_range cls s"
      by (simp_all add: reachable_wf)
    show "in_range cls (snd (toggleFlag name s))"
    proof (cases "registered s name")
      case True
      then obtain i where i: "flagIndices s name = Some i" by (auto simp add: registered_def)
      from with_bit_in_range [OF assms(2) wf ir i] True i show ?thesis
        by (simp add: fresh_toggleFlag [OF fr])
    next
      case False
      then show ?thesis using ir by (simp add: fresh_toggleFlag [OF fr])
    qed
  qed
next
  case (r_setFlags s obj)
  show ?case
  proof
    assume "fresh (snd (setFlags obj s))"
    then have fr: "fresh s" by (simp add: same_registry_fresh [OF setFlags_same])
    with r_setFlags have wf: "wf_registry cls s" and ir: "in_range cls s"
      by (simp_all add: reachable_wf)
    from assms(2) wf fr ir show "in_range cls (snd (setFlags obj s))"
      unfolding fresh_setFlags [OF fr] by (rule setFlags_loop_in_range)
  qed
next
  case (r_toggleFlags s names)
  show ?case
  proof
    assume "fresh (snd (toggleFlags names s))"
    then have fr: "fresh s" by (simp add: same_registry_fresh [OF toggleFlags_same])
    with r_toggleFlags have wf: "wf_registry cls s" and ir: "in_range cls s"
      by (simp_all add: reachable_wf)
    from assms(2) wf fr ir show "in_range cls (snd (toggleFlags names s))"
      unfolding fresh_toggleFlags [OF fr] by (rule toggleFlags_loop_in_range)
  qed
next
  case (r_fromValue s v)
  show ?case
  proof
    assume "fresh (snd (fromValue v s))"
    then have fr: "fresh s" by (simp add: same_registry_fresh [OF fromValue_same])
    with r_fromValue have wf: "wf_registry cls s" and ir: "in_range cls s"
      by (simp_all add: reachable_wf)
    from wf have "MAX_VALUE s = Some (static_MAX_VALUE cls)" by (simp add: wf_registry_def)
    with ir show "in_range cls (snd (fromValue v s))"
      by (cases v) (auto simp add: fresh_fromValue [OF fr] in_range_def)
  qed
next
  case (r_set_property s name v r)
  show ?case
  proof
    assume "fresh (snd r)"
    then have fr: "fresh s"
      by (simp add: same_registry_fresh [OF set_property_same [OF r_set_property.hyps(2)]])
    with r_set_property have wf: "wf_registry cls s" and ir: "in_range cls s"
      by (simp_all add: reachable_wf)
    from r_set_property.hyps(2) obtain i where i: "accessors s name = Some i"
      "r = (None, with_bit i v s)"
      by (auto simp add: set_property_def fresh_setBit [OF fr] split: option.splits)
    from wf i(1) have "flagIndices s name = Some i" by (simp add: wf_registry_def)
    from with_bit_in_range [OF assms(2) wf ir this] i(2) show "in_range cls (snd r)" by simp
  qed
qed

lemma reachable_in_range:
  "reachable cls s \<Longrightarrow> fresh s \<Longrightarrow> cls \<noteq> LongFlags \<Longrightarrow> in_range cls s"
  using reachable_in_range_aux by blast

lemma reachable_state:
  assumes "reachable cls s" "fresh s"
  shows "s = (constructed cls (flagList s))\<lparr>value := value s\<rparr>"
proof -
  from reachable_same_registry_cases [OF assms(1)] assms(2) obtain ns where
    "same_registry (constructed cls ns) s" by auto
  then have s: "s = (constructed cls ns)\<lparr>value := value s\<rparr>" by (simp add: same_registry_def)
  then have "flagList s = flagList ((constructed cls ns)\<lparr>value := value s\<rparr>)" by simp
  then have "flagList s = ns" by (simp add: constructed_def)
  with s show ?thesis by simp
qed

lemma with_bit_bounds:
  "- 2147483648 \<le> value (with_bit p b s) \<and> value (with_bit p b s) \<le> 4294967295"
proof -
  have "- 2147483648 \<le> sint w \<and> sint w \<le> 4294967295" for w :: "32 word"
    using sint_ge [of w] sint_lt [of w] by simp
  then show ?thesis
    by (simp add: with_bit_def js_or_def js_and_def)
qed

lemma setFlags_loop_bounds:
  assumes "fresh s" "- 2147483648 \<le> value s \<and> value s \<le> 4294967295"
  shows "- 2147483648 \<le> value (snd (setFlags_loop es s)) \<and>
         value (snd (setFlags_loop es s)) \<le> 4294967295"
  using assms
proof (induction es arbitrary: s)
  case Nil
  then show ?case by simp
next
  case (Cons e es)
  obtain n b where e: "e = (n, b)" by (cases e)
  show ?case
  proof (cases "registered s n")
    case True
    let ?t = "with_bit (the (flagIndices s n)) b s"
    have "setFlags_loop (e # es) s = setFlags_loop es ?t"
      using True unfolding e by (simp only: fresh_setFlags_loop_Cons [OF Cons.prems(1)]) simp
    moreover have "fresh ?t" using Cons.prems(1) by simp
    moreover have "- 2147483648 \<le> value ?t \<and> value ?t \<le> 4294967295" by (rule with_bit_bounds)
    ultimately show ?thesis using Cons.IH [of ?t] by simp
  next
    case False
    then show ?thesis using Cons
      unfolding e by (simp only: fresh_setFlags_loop_Cons [OF Cons.prems(1)]) simp
  qed
qed

lemma toggleFlags_loop_bounds:
  assumes "fresh s" "- 2147483648 \<le> value s \<and> value s \<le> 4294967295"
  shows "- 2147483648 \<le> value (snd (toggleFlags_loop names s)) \<and>
         value (snd (toggleFlags_loop names s)) \<le> 4294967295"
  using assms
proof (induction names arbitrary: s)
  case Nil
  then show ?case by simp
next
  case (Cons n names)
  show ?case
  proof (cases "registered s n")
    case True
    let ?t = "with_bit (the (flagIndices s n)) (\<not> bit_of s (the (flagIndices s n))) s"
    have "toggleFlags_loop (n # names) s = toggleFlags_loop names ?t"
      using True by (simp only: fresh_toggleFlags_loop_Cons [OF Cons.prems(1)]) simp
    moreover have "fresh ?t" using Cons.prems(1) by simp
    moreover have "- 2147483648 \<le> value ?t \<and> value ?t \<le> 4294967295" by (rule with_bit_bounds)
    ultimately show ?thesis using Cons.IH [of ?t] by simp
  next
    case False
    then show ?thesis using Cons
      by (simp only: fresh_toggleFlags_loop_Cons [OF Cons.prems(1)]) simp
  qed
qed

lemma static_MAX_VALUE_le: "static_MAX_VALUE cls \<le> 4294967295"
  by (cases cls) simp_all

lemma reachable_value_bounds_aux:
  assumes "reachable cls s"
  shows "fresh s \<longrightarrow> - 2147483648 \<le> value s \<and> value s \<le> 4294967295"
  using assms
proof (induction rule: reachable.induct)
  case (r_new u flagNames s)
  show ?case
  proof
    assume "fresh s"
    with r_new obtain ns where "s = constructed cls ns" by (rule new_flags_Inr_constructed)
    then show "- 2147483648 \<le> value s \<and> value s \<le> 4294967295" by (simp add: constructed_def)
  qed
next
  case (r_setFlag s name v)
  show ?case
  proof
    assume "fresh (snd (setFlag name v s))"
    then have fr: "fresh s" by (simp add: same_registry_fresh [OF setFlag_same])
    with r_setFlag.IH show "- 2147483648 \<le> value (snd (setFlag name v s)) \<and>
        value (snd (setFlag name v s)) \<le> 4294967295"
      using with_bit_bounds by (simp add: fresh_setFlag [OF fr])
  qed
next
  case (r_toggleFlag s name)
  show ?case
  proof
    assume "fresh (snd (toggleFlag name s))"
    then have fr: "fresh s" by (simp add: same_registry_fresh [OF toggleFlag_same])
    with r_toggleFlag.IH show "- 2147483648 \<le> value (snd (toggleFlag name s)) \<and>
        value (snd (toggleFlag name s)) \<le> 4294967295"
      using with_bit_bounds by (simp add: fresh_toggleFlag [OF fr])
  qed
next
  case (r_setFlags s obj)
  show ?case
  proof
    assume "fresh (snd (setFlags obj s))"
    then have fr: "fresh s" by (simp add: same_registry_fresh [OF setFlags_same])
    with r_setFlags.IH show "- 2147483648 \<le> value (snd (setFlags obj s)) \<and>
        value (snd (setFlags obj s)) \<le> 4294967295"
      unfolding fresh_setFlags [OF fr] by (intro setFlags_loop_bounds) simp_all
  qed
next
  case (r_toggleFlags s names)
  show ?case
  proof
    assume "fresh (snd (toggleFlags names s))"
    then have fr: "fresh s" by (simp add: same_registry_fresh [OF toggleFlags_same])
    with r_toggleFlags.IH show "- 2147483648 \<le> value (snd (toggleFlags names s)) \<and>
        value (snd (toggleFlags names s)) \<le> 4294967295"
      unfolding fresh_toggleFlags [OF fr] by (intro toggleFlags_loop_bounds) simp_all
  qed
next
  case (r_fromValue s v)
  show ?case
  proof
    assume "fresh (snd (fromValue v s))"
    then have fr: "fresh s" by (simp add: same_registry_fresh [OF fromValue_same])
    with r_fromValue.hyps have "MAX_VALUE s = Some (static_MAX_VALUE cls)"
      by (auto dest: reachable_wf simp add: wf_registry_def)
    with r_fromValue.IH fr static_MAX_VALUE_le [of cls]
    show "- 2147483648 \<le> value (snd (fromValue v s)) \<and> value (snd (fromValue v s)) \<le> 4294967295"
      by (cases v) (auto simp add: fresh_fromValue [OF fr])
  qed
next
  case (r_set_property s name v r)
  show ?case
  proof
    assume "fresh (snd r)"
    then have fr: "fresh s"
      by (simp add: same_registry_fresh [OF set_property_same [OF r_set_property.hyps(2)]])
    from r_set_property.hyps(2) obtain i where "r = (None, with_bit i v s)"
      by (auto simp add: set_property_def fresh_setBit [OF fr] split: option.splits)
    then show "- 2147483648 \<le> value (snd r) \<and> value (snd r) \<le> 4294967295"
      using with_bit_bounds by simp
  qed
qed

lemma reachable_value_bounds:
  "reachable cls s \<Longrightarrow> fresh s \<Longrightarrow> - 2147483648 \<le> value s \<and> value s \<le> 4294967295"
  using reachable_value_bounds_aux by blast

lemma reachable_value_le_MAX:
  assumes "reachable cls s" "fresh s"
  shows "value s \<le> static_MAX_VALUE cls"
proof (cases "cls = LongFlags")
  case True
  with reachable_value_bounds [OF assms] show ?thesis by simp
next
  case False
  with reachable_in_range [OF assms] show ?thesis by (simp add: in_range_def)
qed

lemma fromValue_toValue_roundtrip_nonneg:
  assumes "reachable cls s" "fresh s" "0 \<le> value s"
  shows "toValue s = Inr (value s) \<and> getFlagNames s = Inr (flagList s) \<and>
         new_flags u cls (map JString (flagList s)) = Inr (constructed cls (flagList s)) \<and>
         fromValue (Integer (value s)) (constructed cls (flagList s)) = (None, s)"
proof -
  from assms(1,2) have wf: "wf_registry cls s" by (rule reachable_wf)
  then have "new_flags u cls (map JString (flagList s)) = Inr (constructed cls (flagList s))"
    by (intro new_flags_success) (simp_all add: wf_registry_def)
  moreover have "fresh (constructed cls (flagList s))"
    using wf by (intro fresh_constructed) (simp add: wf_registry_def)
  then have "fromValue (Integer (value s)) (constructed cls (flagList s)) =
      (None, (constructed cls (flagList s))\<lparr>value := value s\<rparr>)"
    using assms(3) reachable_value_le_MAX [OF assms(1,2)]
    by (subst fresh_fromValue [where m = "static_MAX_VALUE cls"]) (simp_all add: constructed_def)
  ultimately show ?thesis
    using reachable_state [OF assms(1,2)]
    by (simp add: fresh_getFlagNames [OF assms(2)] fresh_toValue [OF assms(2)])
qed

lemma flag_names_32_valid:
  "flag_names_32 \<noteq> []" "length flag_names_32 \<le> static_MAX_FLAGS LongFlags"
  "distinct flag_names_32" "list_all (\<lambda>n. trim n \<noteq> []) flag_names_32"
  by (simp_all add: flag_names_32_def) (simp_all add: lit_def trim_def is_white_space_def)

lemma flag_names_32_fresh: "list_all fresh_name flag_names_32"
  by (simp add: flag_names_32_def fresh_name_def member_names_def)

lemma flag_names_32_index: "flagIndices (constructed LongFlags flag_names_32) (lit ''f31'') = Some 31"
proof -
  have "wf_registry LongFlags (constructed LongFlags flag_names_32)"
    using flag_names_32_valid flag_names_32_fresh by (rule wf_constructed)
  from wf_index_nth [OF this, of 31] show ?thesis
    by (simp add: constructed_def) (simp add: flag_names_32_def)
qed

section \<open>Concrete containers\<close>

text \<open>\<open>new ByteFlags("f0", "f1")\<close>, used to instantiate the theorems below.\<close>

lemma reachable_constructed:
  assumes "ns \<noteq> []" "length ns \<le> static_MAX_FLAGS cls" "distinct ns"
    "list_all (\<lambda>n. trim n \<noteq> []) ns" "list_all fresh_name ns"
  shows "reachable cls (constructed cls ns)"
  using new_flags_success [OF assms, of True] by (rule r_new)

lemma trim_lit_f0 [simp]: "trim (lit ''f0'') \<noteq> []" "trim (lit ''f1'') \<noteq> []"
  by (simp_all add: trim_def lit_def is_white_space_def)

lemma fresh_name_f0 [simp]: "fresh_name (lit ''f0'')" "fresh_name (lit ''f1'')"
  by (simp_all add: fresh_name_def member_names_def)

lemma reachable_example: "reachable ByteFlags (constructed ByteFlags [lit ''f0'', lit ''f1''])"
  by (rule reachable_constructed) simp_all

lemma fresh_example: "fresh (constructed ByteFlags [lit ''f0'', lit ''f1''])"
  by (rule fresh_constructed) simp

lemma registered_constructed [simp]: "registered (constructed cls ns) n \<longleftrightarrow> n \<in> set ns"
  by (simp add: registered_def constructed_def)

lemma valid_name_lit [simp]: "valid_name (JString (lit ''f0''))" "valid_name (JString (lit ''f1''))"
  by simp_all

section \<open>Instances with shadowed members\<close>

lemmas member_access = shadowed_def getBit_def setBit_def read_field_def this_nextIndex_def
  this_MAX_FLAGS_def this_MAX_VALUE_def this_value_def assign_field_def

lemmas bit_operators = js_or_def js_and_def js_not_def js_shl_def

lemma trim_lit_names [simp]:
  "trim (lit ''nextIndex'') \<noteq> []" "trim (lit ''b'') \<noteq> []" "trim (lit ''flagList'') \<noteq> []"
  "trim (lit ''hasFlag'') \<noteq> []" "trim (lit ''count'') \<noteq> []" "trim (lit ''__proto__'') \<noteq> []"
  "trim (lit '''') = []"
  by (simp_all add: trim_def lit_def is_white_space_def)

lemma new_nextIndex_b:
  "new_flags u ByteFlags [JString (lit ''nextIndex''), JString (lit ''b'')] = Inr nextIndex_b"
  by (simp add: new_flags_def BaseFlags_constructor_def BaseFlags_fields_def addFlag_def
      init_field_def member_access bit_operators Let_def nextIndex_b_def)

lemma getFlag_nextIndex_b:
  "getFlag (lit ''b'') (nextIndex_b\<lparr>value := v\<rparr>) = Inr (js_and v 1 \<noteq> 0)"
  "getFlag (lit ''nextIndex'') (nextIndex_b\<lparr>value := v\<rparr>) = Inr (js_and v 1 \<noteq> 0)"
  by (simp_all add: getFlag_def hasFlag_def member_access js_shl_def nextIndex_b_def)

lemma nextIndex_b_value: "nextIndex_b\<lparr>value := 1\<rparr> = nextIndex_b"
  by (simp add: nextIndex_b_def)

section \<open>What the operations do on fresh instances\<close>

text \<open>
  Construction from names that are valid, pairwise different and fresh: it
  succeeds, \<open>toValue()\<close> on the new container is 0 (every flag reads false), and
  \<open>getFlagNames()\<close> returns the input names in input order, the name at position
  \<open>i\<close> having bit index \<open>i\<close>.
\<close>

lemma construction_succeeds_fresh:
  assumes "args \<noteq> []" "length args \<le> static_MAX_FLAGS cls" "distinct args"
    "list_all valid_name args" "list_all fresh_arg args"
  shows "\<exists>s ns. args = map JString ns \<and> new_flags u cls args = Inr s \<and> toValue s = Inr 0 \<and>
           getFlagNames s = Inr ns \<and>
           (\<forall>i<length ns. flagIndices s (ns ! i) = Some i \<and> getFlag (ns ! i) s = Inr False)"
proof -
  from assms(4) obtain ns where ns: "args = map JString ns" "list_all (\<lambda>n. trim n \<noteq> []) ns"
    by (auto simp add: list_all_valid_name)
  with assms have v: "ns \<noteq> []" "length ns \<le> static_MAX_FLAGS cls" "distinct ns"
    "list_all fresh_name ns"
    by (auto simp add: distinct_map)
  let ?s = "constructed cls ns"
  have new: "new_flags u cls args = Inr ?s"
    unfolding ns(1) using v(1-3) ns(2) v(4) by (rule new_flags_success)
  have wf: "wf_registry cls ?s" using v(1-3) ns(2) v(4) by (rule wf_constructed)
  have fr: "fresh ?s" using v(4) by (rule fresh_constructed)
  have fl: "flagList ?s = ns" and val: "value ?s = 0" by (simp_all add: constructed_def)
  have "flagIndices ?s (ns ! i) = Some i \<and> getFlag (ns ! i) ?s = Inr False" if "i < length ns" for i
  proof -
    from wf_index_nth [OF wf, of i] that fl have "flagIndices ?s (ns ! i) = Some i" by simp
    then show ?thesis
      using bit_of_value_0 [OF val] by (simp add: fresh_getFlag [OF fr] registered_def)
  qed
  with new ns(1) fl val have "args = map JString ns \<and> new_flags u cls args = Inr ?s \<and>
           toValue ?s = Inr 0 \<and> getFlagNames ?s = Inr ns \<and>
           (\<forall>i<length ns. flagIndices ?s (ns ! i) = Some i \<and> getFlag (ns ! i) ?s = Inr False)"
    by (simp add: fresh_toValue [OF fr] fresh_getFlagNames [OF fr])
  then show ?thesis by (intro exI)
qed

text \<open>
  \<open>any()\<close> is true iff the whole stored integer is nonzero, and \<open>none()\<close> is its
  negation; \<open>count()\<close> is the number of set bits among the registered positions
  \<open>0 .. length(names) - 1\<close> only, which is the number of registered flags that
  read true. So after \<open>fromValue(v)\<close> with an in-range \<open>v\<close> whose set bits all
  lie beyond the registered positions, \<open>any()\<close> is true while \<open>count()\<close> is 0.
\<close>

lemma any_whole_value_count_registered_bits_fresh:
  assumes "reachable cls s" "fresh s"
  shows "any s = Inr (value s \<noteq> 0) \<and> none s = Inr (value s = 0) \<and>
         count s = Inr (card {i. i < length (flagList s) \<and> bit (value s) i}) \<and>
         count s = Inr (length (filter (\<lambda>n. getFlag n s = Inr True) (flagList s))) \<and>
         (0 < v \<and> v \<le> static_MAX_VALUE cls \<and> (\<forall>i<length (flagList s). \<not> bit v i) \<longrightarrow>
            fst (fromValue (Integer v) s) = None \<and>
            any (snd (fromValue (Integer v) s)) = Inr True \<and>
            none (snd (fromValue (Integer v) s)) = Inr False \<and>
            count (snd (fromValue (Integer v) s)) = Inr 0)"
proof -
  from assms have wf: "wf_registry cls s" by (rule reachable_wf)
  then have n: "nextIndex s = length (flagList s)" and len: "length (flagList s) \<le> 32"
    and mv: "MAX_VALUE s = Some (static_MAX_VALUE cls)"
    by (cases cls; simp add: wf_registry_def)+
  have "{i. i < nextIndex s \<and> bit_of s i} = {i. i < length (flagList s) \<and> bit (value s) i}"
    using len by (auto simp add: n bit_of_int)
  then have c: "count s = Inr (card {i. i < length (flagList s) \<and> bit (value s) i})"
    by (simp add: count_card [OF assms(2)])
  have f: "fst (fromValue (Integer v) s) = None \<and>
            any (snd (fromValue (Integer v) s)) = Inr True \<and>
            none (snd (fromValue (Integer v) s)) = Inr False \<and>
            count (snd (fromValue (Integer v) s)) = Inr 0"
    if v: "0 < v" "v \<le> static_MAX_VALUE cls" "\<forall>i<length (flagList s). \<not> bit v i"
  proof -
    let ?t = "s\<lparr>value := v\<rparr>"
    from v mv have t: "fromValue (Integer v) s = (None, ?t)"
      by (simp add: fresh_fromValue [OF assms(2)])
    have ft: "fresh ?t" using assms(2) by simp
    have "{i. i < nextIndex ?t \<and> bit_of ?t i} = {}"
      using len v(3) by (auto simp add: n bit_of_int)
    then have "count ?t = Inr 0" by (simp add: count_card [OF ft])
    with v(1) t show ?thesis by (simp add: fresh_any [OF ft] fresh_none [OF ft])
  qed
  from c wf_count_names [OF wf assms(2)] f show ?thesis
    by (simp add: fresh_any [OF assms(2)] fresh_none [OF assms(2)])
qed

text \<open>
  \<open>setFlags(m)\<close> never raises; it ignores every key of \<open>m\<close> that is not in the
  registry, it returns the receiver with the registry untouched, and on a
  reachable container, for an object \<open>m\<close> (pairwise different keys), every
  registered flag that \<open>m\<close> mentions reads the mapped value afterwards and every
  other registered flag reads what it read before.
\<close>

lemma setFlags_merges_fresh:
  assumes "fresh s"
  shows "fst (setFlags obj s) = None \<and>
   same_registry s (snd (setFlags obj s)) \<and>
   setFlags obj s = setFlags (filter (\<lambda>p. hasFlag s (fst p) = Inr True) obj) s \<and>
   (reachable cls s \<and> distinct (map fst obj) \<and> hasFlag s m = Inr True \<longrightarrow>
      getFlag m (snd (setFlags obj s)) =
        (case map_of obj m of Some v \<Rightarrow> Inr v | None \<Rightarrow> getFlag m s))"
  using setFlags_no_throw [OF assms, of obj] setFlags_same [of s obj]
    setFlags_filter [OF assms, of obj]
    setFlags_effect [of cls s obj m] reachable_wf [of cls s] assms
  by (simp add: fresh_hasFlag [OF assms])

text \<open>
  For two distinct registered names \<open>n\<close> and \<open>m\<close>, \<open>getFlag(m)\<close> returns after
  \<open>setFlag(n, v)\<close> and after \<open>toggleFlag(n)\<close> what it returned before; neither
  call raises, and neither changes the registry.
\<close>

lemma single_flag_mutators_frame_fresh:
  assumes "reachable cls s" "fresh s" "hasFlag s n = Inr True" "hasFlag s m = Inr True" "n \<noteq> m"
  shows "getFlag m (snd (setFlag n v s)) = getFlag m s \<and>
         getFlag m (snd (toggleFlag n s)) = getFlag m s \<and>
         fst (setFlag n v s) = None \<and> fst (toggleFlag n s) = None \<and>
         same_registry s (snd (setFlag n v s)) \<and> same_registry s (snd (toggleFlag n s))"
proof -
  from assms(1,2) have wf: "wf_registry cls s" by (rule reachable_wf)
  from assms(3,4) have r: "registered s n" "registered s m"
    by (simp_all add: fresh_hasFlag [OF assms(2)])
  then obtain i j where ij: "flagIndices s n = Some i" "flagIndices s m = Some j"
    by (auto simp add: registered_def)
  have bit: "bit_of (with_bit i b s) j = bit_of s j" for b
    by (rule bit_of_with_bit_other [OF wf ij assms(5)])
  have reg: "registered (with_bit i b s) m" for b
    using r(2) by (simp add: same_registry_registered [OF with_bit_same])
  have idx: "flagIndices (with_bit i b s) m = Some j" for b
    using ij(2) by (simp add: same_registry_fields(3) [OF with_bit_same])
  have fr: "fresh (with_bit i b s)" for b using assms(2) by simp
  show ?thesis
    using r ij bit reg idx
    by (simp add: fresh_setFlag [OF assms(2)] fresh_toggleFlag [OF assms(2)]
        fresh_getFlag [OF assms(2)] fresh_getFlag [OF fr])
qed

text \<open>
  The class's static \<open>fromJSON\<close> applied to the string \<open>c.toJSON()\<close> succeeds,
  and \<open>toObject()\<close> of the instance it returns equals \<open>c.toObject()\<close>: the same
  keys with the same values, enumerated in the same order.
\<close>

lemma fromJSON_toJSON_roundtrip_fresh:
  assumes "reachable cls s" "fresh s"
  shows "\<exists>t r obj obj'. toJSON s = Inr t \<and> fromJSON u cls (Json_string t) = Inr r \<and>
           toObject s = Inr obj \<and> toObject r = Inr obj' \<and>
           map_of obj' = map_of obj \<and> Object_entries obj' = Object_entries obj \<and>
           reachable cls r \<and> fresh r"
proof -
  from assms have wf: "wf_registry cls s" by (rule reachable_wf)
  let ?b = "\<lambda>n. getFlag n s = Inr True"
  let ?obj = "map (\<lambda>n. (n, ?b n)) (flagList s)"
  let ?es = "Object_entries ?obj"
  let ?ks = "map fst ?es"
  let ?c = "constructed cls ?ks"
  have obj: "toObject s = Inr ?obj" using wf assms(2) by (rule toObject_wf)
  have keys: "map fst ?obj = flagList s" by (simp add: comp_def)
  have dobj: "distinct (map fst ?obj)" unfolding keys using wf by (simp add: wf_registry_def)
  then have des: "distinct ?ks" by simp
  have "set ?ks = fst ` set ?obj" by (simp only: set_map set_Object_entries)
  also have "\<dots> = set (map fst ?obj)" by (simp only: set_map)
  finally have sks: "set ?ks = set (flagList s)" by (simp only: keys)
  have lks: "length ?ks = length (flagList s)" by simp
  have es_val: "map (\<lambda>n. (n, ?b n)) ?ks = ?es"
  proof -
    have "map (\<lambda>p. (fst p, ?b (fst p))) ?es = ?es"
    proof (rule map_idI)
      fix p assume "p \<in> set ?es"
      then show "(fst p, ?b (fst p)) = p" by auto
    qed
    then show ?thesis by (simp add: comp_def)
  qed
  have json: "toJSON s = Inr (Json_members ?es)"
    by (simp add: toJSON_def obj JSON_stringify_def fresh_shadowed [OF assms(2)])
  have parse: "JSON_parse (Json_members ?es) = Inr ?es"
    using JSON_parse_members [of "[]" ?es] des by simp
  have okeys: "Object_keys ?es = ?ks" by (simp add: Object_keys_def)
  have v: "?ks \<noteq> []" "length ?ks \<le> static_MAX_FLAGS cls" "list_all (\<lambda>n. trim n \<noteq> []) ?ks"
    "list_all fresh_name ?ks"
    using wf sks lks unfolding wf_registry_def list_all_iff by (auto simp del: length_map)
  have new: "new_flags u cls (map JString ?ks) = Inr ?c"
    using v(1,2) des v(3,4) by (rule new_flags_success)
  have wf0: "wf_registry cls ?c" using v(1,2) des v(3,4) by (rule wf_constructed)
  have fr0: "fresh ?c" using v(4) by (rule fresh_constructed)
  have reach0: "reachable cls ?c" using v(1,2) des v(3,4) by (rule reachable_constructed)
  obtain r where sf: "setFlags ?es ?c = (None, r)"
    using setFlags_no_throw [OF fr0, of ?es] by (cases "setFlags ?es ?c") auto
  then have r: "r = snd (setFlags ?es ?c)" by simp
  have fj: "fromJSON u cls (Json_string (Json_members ?es)) = Inr r"
    by (simp only: fromJSON_def json_arg.case parse sum.case okeys new sf prod.case option.case)
  have reach: "reachable cls r" unfolding r using reach0 by (rule r_setFlags)
  have frr: "fresh r" unfolding r using fr0 by (simp add: same_registry_fresh [OF setFlags_same])
  from reach frr have wfr: "wf_registry cls r" by (rule reachable_wf)
  have "same_registry ?c (snd (setFlags ?es ?c))" by (rule setFlags_same)
  from same_registry_fields(2) [OF this] have flr: "flagList r = ?ks"
    unfolding r by (simp add: constructed_def)
  have val: "getFlag n r = Inr (?b n)" if "n \<in> set ?ks" for n
  proof -
    from that have h: "registered ?c n" by simp
    from that sks have "(n, ?b n) \<in> set ?es" by auto
    with des have "map_of ?es n = Some (?b n)" by simp
    with setFlags_effect [OF wf0 fr0 _ h, of ?es] des show ?thesis by (simp add: r)
  qed
  have "toObject r = Inr (map (\<lambda>n. (n, getFlag n r = Inr True)) ?ks)"
    using toObject_wf [OF wfr frr] by (simp only: flr)
  also have "map (\<lambda>n. (n, getFlag n r = Inr True)) ?ks = map (\<lambda>n. (n, ?b n)) ?ks"
    by (rule map_cong) (simp_all add: val)
  finally have objr: "toObject r = Inr ?es" by (simp only: es_val)
  have "map_of ?es = map_of ?obj" using dobj by (rule map_of_Object_entries)
  with json fj obj objr reach frr
  have "toJSON s = Inr (Json_members ?es) \<and> fromJSON u cls (Json_string (Json_members ?es)) = Inr r \<and>
           toObject s = Inr ?obj \<and> toObject r = Inr ?es \<and>
           map_of ?es = map_of ?obj \<and> Object_entries ?es = Object_entries ?obj \<and>
           reachable cls r \<and> fresh r"
    by simp
  then show ?thesis by (intro exI)
qed

section \<open>Claims\<close>

text \<open>
  C1, as stated: \<open>toggleFlags(...names)\<close> raises \<open>UnknownFlag\<close> whenever some name
  is not in the registry. It does not: on \<open>new ByteFlags("f0", "f1")\<close> the call
  \<open>toggleFlags("f0", "nope")\<close> returns normally, with \<open>f0\<close> toggled.
\<close>

theorem toggleFlags_unknown_counterexample:
  "new_flags True ByteFlags [JString (lit ''f0''), JString (lit ''f1'')] =
     Inr (constructed ByteFlags [lit ''f0'', lit ''f1'']) \<and>
   new_flags False ByteFlags [JString (lit ''f0''), JString (lit ''f1'')] =
     Inr (constructed ByteFlags [lit ''f0'', lit ''f1'']) \<and>
   hasFlag (constructed ByteFlags [lit ''f0'', lit ''f1'']) (lit ''nope'') = Inr False \<and>
   toggleFlags [lit ''f0'', lit ''nope''] (constructed ByteFlags [lit ''f0'', lit ''f1'']) =
     (None, (constructed ByteFlags [lit ''f0'', lit ''f1''])\<lparr>value := 1\<rparr>)"
proof -
  have "new_flags u ByteFlags (map JString [lit ''f0'', lit ''f1'']) =
     Inr (constructed ByteFlags [lit ''f0'', lit ''f1''])" for u
    by (rule new_flags_success) simp_all
  moreover have "toggleFlags [lit ''f0'', lit ''nope''] (constructed ByteFlags [lit ''f0'', lit ''f1'']) =
     (None, (constructed ByteFlags [lit ''f0'', lit ''f1''])\<lparr>value := 1\<rparr>)"
    by (simp add: toggleFlags_def toggleFlag_def hasFlag_def member_access bit_operators
        Let_def constructed_def)
  moreover have "hasFlag (constructed ByteFlags [lit ''f0'', lit ''f1'']) (lit ''nope'') = Inr False"
    by (simp add: fresh_hasFlag [OF fresh_example])
  ultimately show ?thesis by simp
qed

text \<open>
  C1, amended. On a container no flag of which bears the name of a member of the
  instance, \<open>toggleFlags(...names)\<close> never raises: the guard
  \<open>if (this.hasFlag(name))\<close> skips every name that is not in the registry, so the
  call does what it does with the unknown names removed; it leaves the registry
  unchanged, and on a reachable container a registered flag ends up flipped
  exactly when it is named an odd number of times. Only the single-flag
  \<open>toggleFlag\<close> raises \<open>UnknownFlag\<close> for an unknown name.
\<close>

theorem toggleFlags_ignores_unknown:
  assumes "fresh s"
  shows "fst (toggleFlags names s) = None \<and>
   toggleFlags names s = toggleFlags (filter (\<lambda>n. hasFlag s n = Inr True) names) s \<and>
   same_registry s (snd (toggleFlags names s)) \<and>
   (reachable cls s \<and> hasFlag s m = Inr True \<longrightarrow>
      getFlag m (snd (toggleFlags names s)) =
        Inr (getFlag m s \<noteq> Inr (odd (count_list names m)))) \<and>
   (hasFlag s n = Inr False \<longrightarrow>
      toggleFlag n s = (Some (FlagDoesNotExist n), s) \<and>
      kind (FlagDoesNotExist n) = Some UnknownFlag)"
proof -
  have "getFlag m (snd (toggleFlags names s)) =
        Inr (getFlag m s \<noteq> Inr (odd (count_list names m)))"
    if r: "reachable cls s" and m: "hasFlag s m = Inr True"
  proof -
    from r assms have wf: "wf_registry cls s" by (rule reachable_wf)
    from m obtain j where j: "flagIndices s m = Some j"
      by (auto simp add: fresh_hasFlag [OF assms] registered_def)
    have reg: "flagIndices (snd (toggleFlags_loop names s)) = flagIndices s"
      by (rule same_registry_fields(3) [OF toggleFlags_loop_same])
    have fr: "fresh (snd (toggleFlags_loop names s))"
      using assms by (simp add: same_registry_fresh [OF toggleFlags_loop_same])
    from toggleFlags_loop_effect [OF wf assms j, of names] j reg show ?thesis
      unfolding fresh_toggleFlags [OF assms]
      by (auto simp add: fresh_getFlag [OF fr] fresh_getFlag [OF assms] registered_def)
  qed
  moreover have "hasFlag s n = Inr False \<Longrightarrow> toggleFlag n s = (Some (FlagDoesNotExist n), s)"
    by (simp add: fresh_toggleFlag [OF assms] fresh_hasFlag [OF assms])
  moreover have "fst (toggleFlags names s) = None"
    by (simp add: fresh_toggleFlags [OF assms] toggleFlags_loop_no_throw [OF assms])
  moreover have "toggleFlags names s = toggleFlags (filter (\<lambda>n. hasFlag s n = Inr True) names) s"
    using toggleFlags_loop_filter [OF assms, of names]
    by (simp add: fresh_toggleFlags [OF assms] fresh_hasFlag [OF assms])
  moreover note toggleFlags_same [of s names]
  ultimately show ?thesis by simp
qed

theorem toggleFlags_ignores_unknown_witness:
  "fresh (constructed ByteFlags [lit ''f0'', lit ''f1'']) \<and>
   fst (toggleFlags [lit ''f0'', lit ''nope''] (constructed ByteFlags [lit ''f0'', lit ''f1''])) =
     None \<and>
   getFlag (lit ''f0'')
     (snd (toggleFlags [lit ''f0'', lit ''nope''] (constructed ByteFlags [lit ''f0'', lit ''f1'']))) =
     Inr True \<and>
   fst (toggleFlag (lit ''nope'') (constructed ByteFlags [lit ''f0'', lit ''f1''])) =
     Some (FlagDoesNotExist (lit ''nope''))"
proof -
  let ?c = "constructed ByteFlags [lit ''f0'', lit ''f1'']"
  note t = toggleFlags_ignores_unknown [OF fresh_example, of "[lit ''f0'', lit ''nope'']"
        ByteFlags "lit ''f0''" "lit ''nope''"]
  have g: "getFlag (lit ''f0'') ?c = Inr False"
    by (simp only: fresh_getFlag [OF fresh_example])
       (simp add: bit_of_def constructed_def js_and_def registered_def)
  have h: "hasFlag ?c (lit ''f0'') = Inr True" "hasFlag ?c (lit ''nope'') = Inr False"
    by (simp_all add: fresh_hasFlag [OF fresh_example])
  from t have "reachable ByteFlags ?c \<and> hasFlag ?c (lit ''f0'') = Inr True \<longrightarrow>
      getFlag (lit ''f0'') (snd (toggleFlags [lit ''f0'', lit ''nope''] ?c)) =
      Inr (getFlag (lit ''f0'') ?c \<noteq> Inr (odd (count_list [lit ''f0'', lit ''nope''] (lit ''f0''))))"
    by (elim conjE)
  with reachable_example g h(1)
  have a: "getFlag (lit ''f0'') (snd (toggleFlags [lit ''f0'', lit ''nope''] ?c)) = Inr True"
    by simp
  from t have "hasFlag ?c (lit ''nope'') = Inr False \<longrightarrow>
      toggleFlag (lit ''nope'') ?c = (Some (FlagDoesNotExist (lit ''nope'')), ?c) \<and>
      kind (FlagDoesNotExist (lit ''nope'')) = Some UnknownFlag"
    by (elim conjE)
  with h(2) have b: "fst (toggleFlag (lit ''nope'') ?c) = Some (FlagDoesNotExist (lit ''nope''))"
    by simp
  from t have c: "fst (toggleFlags [lit ''f0'', lit ''nope''] ?c) = None" by (elim conjE)
  from a b c fresh_example show ?thesis by simp
qed

text \<open>
  C2 says that the stored value always lies in \<open>0 .. 2 ^ capacity - 1\<close> and that
  no operation makes it negative. That holds of \<open>ByteFlags\<close> and \<open>ShortFlags\<close>
  with fresh names (lemma \<open>reachable_in_range\<close>); of a \<open>LongFlags\<close> the value
  stays within \<open>- 2 ^ 31 .. 2 ^ 32 - 1\<close> only (lemma \<open>reachable_value_bounds\<close>),
  because \<open>1 << 31\<close> is \<open>- 2 ^ 31\<close> and \<open>|=\<close> yields a signed 32-bit number. C2
  at \<open>new LongFlags("f0", ..., "f31")\<close>: \<open>setFlag("f31", true)\<close> stores
  \<open>-2147483648\<close>, which \<open>toLong()\<close> returns.
\<close>

theorem LongFlags_stored_value_negative:
  "new_flags u LongFlags (map JString flag_names_32) = Inr (constructed LongFlags flag_names_32) \<and>
   length flag_names_32 = 32 \<and>
   setFlag (lit ''f31'') True (constructed LongFlags flag_names_32) =
     (None, (constructed LongFlags flag_names_32)\<lparr>value := - 2147483648\<rparr>) \<and>
   toLong ((constructed LongFlags flag_names_32)\<lparr>value := - 2147483648\<rparr>) = Inr (- 2147483648) \<and>
   reachable LongFlags ((constructed LongFlags flag_names_32)\<lparr>value := - 2147483648\<rparr>)"
proof -
  let ?c = "constructed LongFlags flag_names_32"
  have new: "new_flags u LongFlags (map JString flag_names_32) = Inr ?c"
    using flag_names_32_valid flag_names_32_fresh by (rule new_flags_success)
  have fr: "fresh ?c" using flag_names_32_fresh by (rule fresh_constructed)
  have "value ?c = 0" by (simp add: constructed_def)
  then have set: "setFlag (lit ''f31'') True ?c = (None, ?c\<lparr>value := - 2147483648\<rparr>)"
    using flag_names_32_index
    by (simp add: fresh_setFlag [OF fr] registered_def with_bit_def js_or_def js_shl_def)
  have "reachable LongFlags ?c" using new by (rule r_new)
  then have "reachable LongFlags (snd (setFlag (lit ''f31'') True ?c))" by (rule r_setFlag)
  moreover have "fresh (?c\<lparr>value := - 2147483648\<rparr>)" using fr by simp
  then have "toLong (?c\<lparr>value := - 2147483648\<rparr>) = Inr (- 2147483648)"
    by (simp add: fresh_aliases fresh_toValue)
  ultimately show ?thesis using new set
    by simp (simp add: flag_names_32_def)
qed

text \<open>
  C3 says that \<open>fromValue(c.toValue())\<close> on a fresh container with the names of
  \<open>c\<close> succeeds and reproduces \<open>c.toObject()\<close>. With fresh names it does
  whenever the stored value of \<open>c\<close> is not negative, and then the new container
  ends in the very state of \<open>c\<close> (lemma \<open>fromValue_toValue_roundtrip_nonneg\<close>);
  this covers every such \<open>ByteFlags\<close> and \<open>ShortFlags\<close>. C3 at the
  \<open>LongFlags\<close> of 32 names with \<open>f31\<close> set: \<open>toValue()\<close> is \<open>-2147483648\<close>, and
  \<open>fromValue\<close> (and \<open>fromLong\<close>) on the new container raises and leaves it as
  constructed.
\<close>

theorem LongFlags_roundtrip_fails:
  "toValue (snd (setFlag (lit ''f31'') True (constructed LongFlags flag_names_32))) =
     Inr (- 2147483648) \<and>
   getFlagNames (snd (setFlag (lit ''f31'') True (constructed LongFlags flag_names_32))) =
     Inr flag_names_32 \<and>
   new_flags u LongFlags (map JString flag_names_32) = Inr (constructed LongFlags flag_names_32) \<and>
   fromValue (Integer (- 2147483648)) (constructed LongFlags flag_names_32) =
     (Some (ValueNotInRange (Number 4294967295)), constructed LongFlags flag_names_32) \<and>
   fromLong (Integer (- 2147483648)) (constructed LongFlags flag_names_32) =
     (Some (ValueNotInRange (Number 4294967295)), constructed LongFlags flag_names_32)"
proof -
  let ?c = "constructed LongFlags flag_names_32"
  have new: "new_flags u LongFlags (map JString flag_names_32) = Inr ?c"
    using flag_names_32_valid flag_names_32_fresh by (rule new_flags_success)
  have fr: "fresh ?c" using flag_names_32_fresh by (rule fresh_constructed)
  then have fr': "fresh (?c\<lparr>value := - 2147483648\<rparr>)" by simp
  have "value ?c = 0" by (simp add: constructed_def)
  then have set: "setFlag (lit ''f31'') True ?c = (None, ?c\<lparr>value := - 2147483648\<rparr>)"
    using flag_names_32_index
    by (simp add: fresh_setFlag [OF fr] registered_def with_bit_def js_or_def js_shl_def)
  have mv: "MAX_VALUE ?c = Some 4294967295" by (simp add: constructed_def)
  have "fromValue (Integer (- 2147483648)) ?c = (Some (ValueNotInRange (Number 4294967295)), ?c)"
    by (simp add: fresh_fromValue [OF fr mv])
  with new set show ?thesis
    by (simp add: fresh_toValue [OF fr'] fresh_getFlagNames [OF fr'] fresh_aliases [OF fr])
       (simp add: constructed_def)
qed

text \<open>
  C4 says that \<open>count()\<close> returns the number of set bits among the registered
  positions \<open>0 .. length(names) - 1\<close>. With fresh names it does (lemma
  \<open>any_whole_value_count_registered_bits_fresh\<close>). C4 at
  \<open>new ByteFlags("nextIndex", "b")\<close> after \<open>fromValue(2)\<close>: there are two names
  and bit 1 is set, but the loop bound \<open>this.nextIndex\<close> reads, through the
  accessor of the flag \<open>nextIndex\<close>, bit 0, which is clear; the loop does not run
  and \<open>count()\<close> returns 0. And on \<open>new ByteFlags("count")\<close> the call \<open>count()\<close>
  throws \<open>TypeError\<close>, because \<open>count\<close> is the flag's accessor, a boolean.
\<close>

theorem count_misses_registered_bit:
  "new_flags u ByteFlags [JString (lit ''nextIndex''), JString (lit ''b'')] = Inr nextIndex_b \<and>
   fromValue (Integer 2) nextIndex_b = (None, nextIndex_b\<lparr>value := 2\<rparr>) \<and>
   getFlagNames (nextIndex_b\<lparr>value := 2\<rparr>) = Inr [lit ''nextIndex'', lit ''b''] \<and>
   bit (2 :: int) 1 \<and>
   count (nextIndex_b\<lparr>value := 2\<rparr>) = Inr 0 \<and>
   any (nextIndex_b\<lparr>value := 2\<rparr>) = Inr True \<and>
   new_flags u ByteFlags [JString (lit ''count'')] = Inr (constructed ByteFlags [lit ''count'']) \<and>
   count (constructed ByteFlags [lit ''count'']) = Inl TypeError"
proof -
  have a: "fromValue (Integer 2) nextIndex_b = (None, nextIndex_b\<lparr>value := 2\<rparr>)"
    by (simp add: fromValue_def member_access nextIndex_b_def)
  have b: "getFlagNames (nextIndex_b\<lparr>value := 2\<rparr>) = Inr [lit ''nextIndex'', lit ''b'']"
    by (simp add: getFlagNames_def member_access nextIndex_b_def)
  have c: "count (nextIndex_b\<lparr>value := 2\<rparr>) = Inr 0"
    unfolding count_def
    by (subst count_loop.simps) (simp add: member_access bit_operators nextIndex_b_def)
  have d: "any (nextIndex_b\<lparr>value := 2\<rparr>) = Inr True"
    by (simp add: any_def member_access nextIndex_b_def)
  have e: "new_flags u ByteFlags [JString (lit ''count'')] = Inr (constructed ByteFlags [lit ''count''])"
    by (simp add: new_flags_def BaseFlags_constructor_def BaseFlags_fields_def addFlag_def
        init_field_def member_access Let_def constructed_def)
  have f: "count (constructed ByteFlags [lit ''count'']) = Inl TypeError"
    by (simp add: count_def member_access bit_operators constructed_def)
  have g: "bit (2 :: int) 1" by (simp add: bit_numeral_Bit0_iff bit_0)
  from new_nextIndex_b [of u] a b c d e f g show ?thesis by simp
qed

text \<open>
  C5 says that \<open>setFlags(m)\<close> never raises and leaves the flags that \<open>m\<close> does
  not mention unchanged. With fresh names it does (lemma
  \<open>setFlags_merges_fresh\<close>). C5 at \<open>new ByteFlags("nextIndex", "b")\<close>, where both
  names stand for bit 0: \<open>setFlags({nextIndex: false})\<close> clears the bit, and the
  flag \<open>b\<close>, which the mapping does not mention, changes from true to false. And
  on \<open>new ByteFlags("hasFlag")\<close> the call \<open>setFlags({x: true})\<close> throws
  \<open>TypeError\<close> at \<open>this.hasFlag(name)\<close>.
\<close>

theorem setFlags_changes_unmentioned_flag:
  "new_flags u ByteFlags [JString (lit ''nextIndex''), JString (lit ''b'')] = Inr nextIndex_b \<and>
   getFlag (lit ''b'') nextIndex_b = Inr True \<and>
   setFlags [(lit ''nextIndex'', False)] nextIndex_b = (None, nextIndex_b\<lparr>value := 0\<rparr>) \<and>
   getFlag (lit ''b'') (nextIndex_b\<lparr>value := 0\<rparr>) = Inr False \<and>
   new_flags u ByteFlags [JString (lit ''hasFlag'')] = Inr (constructed ByteFlags [lit ''hasFlag'']) \<and>
   setFlags [(lit ''x'', True)] (constructed ByteFlags [lit ''hasFlag'']) =
     (Some TypeError, constructed ByteFlags [lit ''hasFlag''])"
proof -
  have i: "\<not> is_array_index (lit ''nextIndex'')" "\<not> is_array_index (lit ''x'')"
    by (simp_all add: is_array_index_def is_digit_def lit_def)
  have a: "setFlags [(lit ''nextIndex'', False)] nextIndex_b = (None, nextIndex_b\<lparr>value := 0\<rparr>)"
    by (simp add: setFlags_def Object_entries_def i setFlag_def hasFlag_def member_access
        bit_operators nextIndex_b_def)
  have b: "getFlag (lit ''b'') nextIndex_b = Inr True"
    using getFlag_nextIndex_b(1) [of 1] by (simp add: nextIndex_b_value js_and_def)
  have c: "getFlag (lit ''b'') (nextIndex_b\<lparr>value := 0\<rparr>) = Inr False"
    by (simp add: getFlag_nextIndex_b js_and_def)
  have d: "new_flags u ByteFlags [JString (lit ''hasFlag'')] = Inr (constructed ByteFlags [lit ''hasFlag''])"
    by (simp add: new_flags_def BaseFlags_constructor_def BaseFlags_fields_def addFlag_def
        init_field_def member_access Let_def constructed_def)
  have e: "setFlags [(lit ''x'', True)] (constructed ByteFlags [lit ''hasFlag'']) =
     (Some TypeError, constructed ByteFlags [lit ''hasFlag''])"
    by (simp add: setFlags_def Object_entries_def i hasFlag_def member_access bit_operators
        constructed_def)
  from new_nextIndex_b [of u] a b c d e show ?thesis by simp
qed

text \<open>
  C6 says that construction from valid, pairwise different names succeeds, that
  \<open>toValue()\<close> on the new container is 0, and that the name at position \<open>i\<close> has
  bit index \<open>i\<close>. With fresh names it does (lemma \<open>construction_succeeds_fresh\<close>).
  C6 at \<open>new ByteFlags("nextIndex", "b")\<close>: \<open>toValue()\<close> is 1 and the second name
  has bit index 0, so that \<open>b\<close> reads true. And \<open>new ByteFlags("flagList", "b")\<close>
  throws \<open>TypeError\<close>: when \<open>b\<close> is added, \<open>this.flagList\<close> is a boolean.
\<close>

theorem construction_shadows_nextIndex:
  "new_flags u ByteFlags [JString (lit ''nextIndex''), JString (lit ''b'')] = Inr nextIndex_b \<and>
   toValue nextIndex_b = Inr 1 \<and>
   getFlagNames nextIndex_b = Inr [lit ''nextIndex'', lit ''b''] \<and>
   flagIndices nextIndex_b (lit ''b'') = Some 0 \<and>
   getFlag (lit ''b'') nextIndex_b = Inr True \<and>
   new_flags u ByteFlags [JString (lit ''flagList''), JString (lit ''b'')] = Inl TypeError"
proof -
  have a: "toValue nextIndex_b = Inr 1"
    by (simp add: toValue_def member_access nextIndex_b_def)
  have b: "getFlagNames nextIndex_b = Inr [lit ''nextIndex'', lit ''b'']"
    by (simp add: getFlagNames_def member_access nextIndex_b_def)
  have c: "flagIndices nextIndex_b (lit ''b'') = Some 0"
    by (simp add: nextIndex_b_def)
  have d: "getFlag (lit ''b'') nextIndex_b = Inr True"
    using getFlag_nextIndex_b(1) [of 1] by (simp add: nextIndex_b_value js_and_def)
  have e: "new_flags u ByteFlags [JString (lit ''flagList''), JString (lit ''b'')] = Inl TypeError"
    by (simp add: new_flags_def BaseFlags_constructor_def BaseFlags_fields_def addFlag_def
        init_field_def member_access bit_operators Let_def)
  from new_nextIndex_b [of u] a b c d e show ?thesis by simp
qed

text \<open>
  C7, as stated: construction from a list that contains a duplicate name raises
  \<open>DuplicateName\<close>. It need not: \<open>new ByteFlags("f0", "", "f0")\<close> raises the
  error of the blank name, which comes first, and a list of nine times \<open>"f0"\<close>
  raises the error of the length check; both are \<open>InvalidArgument\<close>.
\<close>

theorem construction_duplicate_counterexample:
  "new_flags True ByteFlags [JString (lit ''f0''), JString (lit ''''), JString (lit ''f0'')] =
     Inl EmptyFlagName \<and>
   new_flags False ByteFlags [JString (lit ''f0''), JString (lit ''''), JString (lit ''f0'')] =
     Inl EmptyFlagName \<and>
   \<not> distinct [JString (lit ''f0''), JString (lit ''''), JString (lit ''f0'')] \<and>
   kind EmptyFlagName = Some InvalidArgument \<and>
   new_flags True ByteFlags (replicate 9 (JString (lit ''f0''))) = Inl (TooManyFlags 8) \<and>
   new_flags False ByteFlags (replicate 9 (JString (lit ''f0''))) = Inl (TooManyFlags 8) \<and>
   \<not> distinct (replicate 9 (JString (lit ''f0''))) \<and>
   kind (TooManyFlags 8) = Some InvalidArgument"
proof -
  have "new_flags u ByteFlags [JString (lit ''f0''), JString (lit ''''), JString (lit ''f0'')] =
     Inl EmptyFlagName" for u
    by (simp add: new_flags_def BaseFlags_constructor_def BaseFlags_fields_def addFlag_def
        init_field_def member_access Let_def)
  moreover have "new_flags u ByteFlags (replicate 9 (JString (lit ''f0''))) = Inl (TooManyFlags 8)" for u
    by (simp add: new_flags_def)
  moreover have "\<not> distinct (replicate 9 (JString (lit ''f0'')))"
    by (simp add: numeral_eq_Suc)
  ultimately show ?thesis by simp
qed

text \<open>
  C7, amended. Construction fails for every name list that is empty, or longer
  than the capacity of the class (8, 16 or 32), or contains a duplicate name, or
  contains a name that is not a string or is blank after trimming. The empty
  list and the list that is too long raise \<open>InvalidArgument\<close> (the length is
  checked first). Otherwise, if the names are fresh, the names are checked in
  order and the first offending name decides: what is raised is
  \<open>InvalidArgument\<close> if that name is not a string or blank, and \<open>DuplicateName\<close>
  if it repeats an earlier name. So a list of valid fresh names with a duplicate
  raises \<open>DuplicateName\<close>, and a list of fresh names whose valid names are
  pairwise different but which has an invalid one raises \<open>InvalidArgument\<close>.
\<close>

theorem construction_fails:
  "(args = [] \<or> static_MAX_FLAGS cls < length args \<or> \<not> distinct args \<or>
    \<not> list_all valid_name args \<longrightarrow> (\<exists>e. new_flags u cls args = Inl e)) \<and>
   (args = [] \<longrightarrow> new_flags u cls args = Inl NoFlagNames) \<and>
   (static_MAX_FLAGS cls < length args \<longrightarrow>
      new_flags u cls args = Inl (TooManyFlags (static_MAX_FLAGS cls))) \<and>
   (args \<noteq> [] \<and> length args \<le> static_MAX_FLAGS cls \<and> list_all fresh_arg args \<and>
    new_flags u cls args = Inl e \<longrightarrow>
      (\<exists>pre a post. args = pre @ a # post \<and> list_all valid_name pre \<and> distinct pre \<and>
         ((\<not> valid_name a \<and> e = EmptyFlagName) \<or>
          (\<exists>n. a = JString n \<and> valid_name a \<and> a \<in> set pre \<and> e = DuplicateFlag n)))) \<and>
   (args \<noteq> [] \<and> length args \<le> static_MAX_FLAGS cls \<and> list_all fresh_arg args \<and>
    list_all valid_name args \<and> \<not> distinct args \<longrightarrow>
      (\<exists>n. new_flags u cls args = Inl (DuplicateFlag n) \<and> 2 \<le> count_list args (JString n))) \<and>
   (args \<noteq> [] \<and> length args \<le> static_MAX_FLAGS cls \<and> list_all fresh_arg args \<and>
    \<not> list_all valid_name args \<and> distinct (filter valid_name args) \<longrightarrow>
      new_flags u cls args = Inl EmptyFlagName) \<and>
   kind NoFlagNames = Some InvalidArgument \<and> kind (TooManyFlags k) = Some InvalidArgument \<and>
   kind EmptyFlagName = Some InvalidArgument \<and> kind (DuplicateFlag n') = Some DuplicateName"
proof -
  note 1 = new_flags_fails [of args cls u]
    and 2 = new_flags_empty [of u cls]
    and 3 = new_flags_too_long [of cls args u]
    and 4 = new_flags_Inl [of args cls u e]
    and 5 = new_flags_duplicate [of args cls u]
    and 6 = new_flags_invalid [of args cls u]
  from 1 2 3 4 5 6 show ?thesis by simp
qed

theorem construction_fails_witness:
  "new_flags True ShortFlags [] = Inl NoFlagNames \<and>
   new_flags False ByteFlags (replicate 9 (JString (lit ''f0''))) = Inl (TooManyFlags 8) \<and>
   new_flags True ByteFlags [JString (lit ''f0''), JString (lit ''f0'')] =
     Inl (DuplicateFlag (lit ''f0'')) \<and>
   new_flags False LongFlags [JString (lit ''f0''), JString (lit '' '')] = Inl EmptyFlagName \<and>
   new_flags True LongFlags [JOther] = Inl EmptyFlagName"
proof -
  have a: "new_flags True ShortFlags [] = Inl NoFlagNames"
    using construction_fails [of "[]" ShortFlags True] by simp
  have b: "new_flags False ByteFlags (replicate 9 (JString (lit ''f0''))) = Inl (TooManyFlags 8)"
    using construction_fails [of "replicate 9 (JString (lit ''f0''))" ByteFlags False] by simp
  have "\<exists>n. new_flags True ByteFlags [JString (lit ''f0''), JString (lit ''f0'')] = Inl (DuplicateFlag n) \<and>
      2 \<le> count_list [JString (lit ''f0''), JString (lit ''f0'')] (JString n)"
    using construction_fails [of "[JString (lit ''f0''), JString (lit ''f0'')]" ByteFlags True] by simp
  then have c: "new_flags True ByteFlags [JString (lit ''f0''), JString (lit ''f0'')] =
      Inl (DuplicateFlag (lit ''f0''))"
    by (auto split: if_splits)
  have blank: "trim (lit '' '') = []"
    by (simp add: trim_def lit_def is_white_space_def)
  have fb: "fresh_name (lit '' '')" by (simp add: fresh_name_def member_names_def)
  have d: "new_flags False LongFlags [JString (lit ''f0''), JString (lit '' '')] = Inl EmptyFlagName"
    using construction_fails [of "[JString (lit ''f0''), JString (lit '' '')]" LongFlags False] blank fb
    by simp
  have e: "new_flags True LongFlags [JOther] = Inl EmptyFlagName"
    using construction_fails [of "[JOther]" LongFlags True] by simp
  from a b c d e show ?thesis by simp
qed

text \<open>
  C8 says that \<open>fromJSON(c.toJSON())\<close> succeeds and returns an instance with the
  \<open>toObject()\<close> of \<open>c\<close>. With fresh names it does (lemma
  \<open>fromJSON_toJSON_roundtrip_fresh\<close>). C8 at \<open>new ByteFlags("__proto__")\<close>: in
  \<open>toObject()\<close> the assignment \<open>obj["__proto__"] = false\<close> creates no property,
  so \<open>toObject()\<close> is the empty object, \<open>toJSON()\<close> is \<open>"{}"\<close>, and \<open>fromJSON\<close>
  of that throws \<open>At least one flag name must be provided\<close>.
\<close>

theorem fromJSON_toJSON_roundtrip_fails:
  "new_flags u ByteFlags [JString (lit ''__proto__'')] =
     Inr (constructed ByteFlags [lit ''__proto__'']) \<and>
   toObject (constructed ByteFlags [lit ''__proto__'']) = Inr [] \<and>
   toJSON (constructed ByteFlags [lit ''__proto__'']) = Inr (Json_members []) \<and>
   fromJSON u ByteFlags (Json_string (Json_members [])) = Inl NoFlagNames"
proof -
  have a: "new_flags u ByteFlags [JString (lit ''__proto__'')] =
     Inr (constructed ByteFlags [lit ''__proto__''])"
    by (simp add: new_flags_def BaseFlags_constructor_def BaseFlags_fields_def addFlag_def
        init_field_def member_access Let_def constructed_def)
  have b: "toObject (constructed ByteFlags [lit ''__proto__'']) = Inr []"
    by (simp add: toObject_def getFlag_def hasFlag_def member_access obj_set_def constructed_def)
  then have c: "toJSON (constructed ByteFlags [lit ''__proto__'']) = Inr (Json_members [])"
    by (simp add: toJSON_def JSON_stringify_def Object_entries_def shadowed_def constructed_def)
  have d: "fromJSON u ByteFlags (Json_string (Json_members [])) = Inl NoFlagNames"
    by (simp add: fromJSON_def Object_keys_def Object_entries_def new_flags_empty)
  from a b c d show ?thesis by simp
qed

text \<open>
  C9 says that for two distinct registered names \<open>n\<close> and \<open>m\<close>, \<open>getFlag(m)\<close>
  returns after \<open>setFlag(n, v)\<close> and after \<open>toggleFlag(n)\<close> what it returned
  before. With fresh names it does (lemma \<open>single_flag_mutators_frame_fresh\<close>).
  C9 at \<open>new ByteFlags("nextIndex", "b")\<close>, where both names are registered and
  stand for bit 0: \<open>getFlag("b")\<close> is true, and false after
  \<open>setFlag("nextIndex", false)\<close> and after \<open>toggleFlag("nextIndex")\<close>.
\<close>

theorem setFlag_changes_other_flag:
  "new_flags u ByteFlags [JString (lit ''nextIndex''), JString (lit ''b'')] = Inr nextIndex_b \<and>
   hasFlag nextIndex_b (lit ''nextIndex'') = Inr True \<and>
   hasFlag nextIndex_b (lit ''b'') = Inr True \<and>
   getFlag (lit ''b'') nextIndex_b = Inr True \<and>
   setFlag (lit ''nextIndex'') False nextIndex_b = (None, nextIndex_b\<lparr>value := 0\<rparr>) \<and>
   toggleFlag (lit ''nextIndex'') nextIndex_b = (None, nextIndex_b\<lparr>value := 0\<rparr>) \<and>
   getFlag (lit ''b'') (nextIndex_b\<lparr>value := 0\<rparr>) = Inr False"
proof -
  have a: "hasFlag nextIndex_b (lit ''nextIndex'') = Inr True"
    "hasFlag nextIndex_b (lit ''b'') = Inr True"
    by (simp_all add: hasFlag_def member_access nextIndex_b_def)
  have b: "getFlag (lit ''b'') nextIndex_b = Inr True"
    using getFlag_nextIndex_b(1) [of 1] by (simp add: nextIndex_b_value js_and_def)
  have c: "setFlag (lit ''nextIndex'') False nextIndex_b = (None, nextIndex_b\<lparr>value := 0\<rparr>)"
    by (simp add: setFlag_def hasFlag_def member_access bit_operators nextIndex_b_def)
  have d: "toggleFlag (lit ''nextIndex'') nextIndex_b = (None, nextIndex_b\<lparr>value := 0\<rparr>)"
    by (simp add: toggleFlag_def hasFlag_def member_access bit_operators nextIndex_b_def)
  have e: "getFlag (lit ''b'') (nextIndex_b\<lparr>value := 0\<rparr>) = Inr False"
    by (simp add: getFlag_nextIndex_b js_and_def)
  from new_nextIndex_b [of u] a b c d e show ?thesis by simp
qed

text \<open>
  C10. If \<open>fromValue(v)\<close> (or one of the aliases \<open>fromByte\<close>, \<open>fromShort\<close>,
  \<open>fromLong\<close>) raises because \<open>v\<close> is not an integer or lies outside
  \<open>[0, 2 ^ capacity - 1]\<close>, the container is left unchanged: stored value and
  registry are as before the call. This holds of every instance, whatever its
  flag names, and whatever the call raises. On a reachable container with fresh
  names the call raises exactly for such \<open>v\<close>, the error is an
  \<open>InvalidArgument\<close>, and the aliases are \<open>fromValue\<close>.
\<close>

theorem fromValue_failure_unchanged:
  "(fst (fromValue v s) \<noteq> None \<longrightarrow> snd (fromValue v s) = s) \<and>
   (fst (fromByte v s) \<noteq> None \<longrightarrow> snd (fromByte v s) = s) \<and>
   (fst (fromShort v s) \<noteq> None \<longrightarrow> snd (fromShort v s) = s) \<and>
   (fst (fromLong v s) \<noteq> None \<longrightarrow> snd (fromLong v s) = s) \<and>
   (reachable cls s \<and> fresh s \<longrightarrow>
      (fst (fromValue v s) \<noteq> None \<longleftrightarrow>
         v = NonInteger \<or> (\<exists>i. v = Integer i \<and> (i < 0 \<or> static_MAX_VALUE cls < i))) \<and>
      (fst (fromValue v s) \<noteq> None \<longrightarrow>
         (\<exists>e. fst (fromValue v s) = Some e \<and> kind e = Some InvalidArgument)) \<and>
      fromByte v s = fromValue v s \<and> fromShort v s = fromValue v s \<and>
      fromLong v s = fromValue v s)"
proof -
  have sb: "fst (setBit p b s) \<noteq> None \<longrightarrow> snd (setBit p b s) = s" for p b
    by (simp add: setBit_def split: option.split)
  have a: "fst (fromValue v s) \<noteq> None \<longrightarrow> snd (fromValue v s) = s" for v
    using sb
    by (simp add: fromValue_def throw_ValueNotInRange_def assign_field_def
        split: option.split sum.split js_number.split)
  have b: "fst (fromByte v s) \<noteq> None \<longrightarrow> snd (fromByte v s) = s"
    "fst (fromShort v s) \<noteq> None \<longrightarrow> snd (fromShort v s) = s"
    "fst (fromLong v s) \<noteq> None \<longrightarrow> snd (fromLong v s) = s"
    using a [of v] by (simp_all add: fromByte_def fromShort_def fromLong_def split: option.split)
  have c: "(fst (fromValue v s) \<noteq> None \<longleftrightarrow>
         v = NonInteger \<or> (\<exists>i. v = Integer i \<and> (i < 0 \<or> static_MAX_VALUE cls < i))) \<and>
      (fst (fromValue v s) \<noteq> None \<longrightarrow>
         (\<exists>e. fst (fromValue v s) = Some e \<and> kind e = Some InvalidArgument)) \<and>
      fromByte v s = fromValue v s \<and> fromShort v s = fromValue v s \<and>
      fromLong v s = fromValue v s"
    if r: "reachable cls s" and f: "fresh s"
  proof -
    from r f have "MAX_VALUE s = Some (static_MAX_VALUE cls)"
      by (auto dest: reachable_wf simp add: wf_registry_def)
    then show ?thesis
      by (cases v) (auto simp add: fresh_fromValue [OF f] fresh_aliases [OF f])
  qed
  from a [of v] b c show ?thesis by blast
qed

theorem fromValue_failure_unchanged_witness:
  "fst (fromValue (Integer 256) (constructed ByteFlags [lit ''f0'', lit ''f1''])) \<noteq> None \<and>
   snd (fromByte (Integer 256) (constructed ByteFlags [lit ''f0'', lit ''f1''])) =
     constructed ByteFlags [lit ''f0'', lit ''f1''] \<and>
   fst (fromValue NonInteger (constructed ByteFlags [lit ''f0'', lit ''f1''])) \<noteq> None \<and>
   fst (fromValue (Integer 255) (constructed ByteFlags [lit ''f0'', lit ''f1''])) = None"
  using fromValue_failure_unchanged [of "Integer 256" "constructed ByteFlags [lit ''f0'', lit ''f1'']" ByteFlags]
    fromValue_failure_unchanged [of NonInteger "constructed ByteFlags [lit ''f0'', lit ''f1'']" ByteFlags]
    fromValue_failure_unchanged [of "Integer 255" "constructed ByteFlags [lit ''f0'', lit ''f1'']" ByteFlags]
    reachable_example fresh_example
  by simp

end
